theory Spec2Isabelle
  imports Complex_Main "HOL-Library.Sublist"
begin

section \<open>JavaScript values\<close>

text \<open>
  The generator and the template engine of \<^verbatim>\<open>packages/core\<close> work on untyped
  values (\<^verbatim>\<open>schema: any\<close>, \<^verbatim>\<open>TemplateValue\<close>): parsed JSON or YAML documents.
  A value is \<^verbatim>\<open>undefined\<close>, \<^verbatim>\<open>null\<close>, a boolean, a number, a string, an array or a
  plain object. Numbers are exact rationals (the rounding of IEEE doubles is not
  modelled); a string is a list of 8-bit code units; an object is the list of its own
  properties in insertion order (the special enumeration order of integer-like keys and
  the properties inherited from \<^verbatim>\<open>Object.prototype\<close>, with the setter behind the
  key \<^verbatim>\<open>__proto__\<close>, are not modelled); two objects or arrays are compared by structure.
\<close>

datatype json =
    JUndefined
  | JNull
  | JBool bool
  | JNum rat
  | JStr string
  | JArr "json list"
  | JObj "(string \<times> json) list"

datatype error = TypeError | FakerError | Unmodelled

text \<open>
  \<open>TypeError\<close> is JavaScript's own (a property read on \<^verbatim>\<open>null\<close>, a call of
  something that is not a function, a spread of something not iterable);
  \<open>FakerError\<close> is the fake-data library's. \<open>Unmodelled\<close> marks a run that leaves
  the embedding: the code coerces a value (a string where a number is compared, an
  object used as an array) in a way that is not translated here.
\<close>

fun truthy :: "json \<Rightarrow> bool" where
  "truthy JUndefined = False"
| "truthy JNull = False"
| "truthy (JBool b) = b"
| "truthy (JNum n) = (n \<noteq> 0)"
| "truthy (JStr s) = (s \<noteq> [])"
| "truthy (JArr xs) = True"
| "truthy (JObj kvs) = True"

fun nullish :: "json \<Rightarrow> bool" where
  "nullish JUndefined = True"
| "nullish JNull = True"
| "nullish v = False"

text \<open>\<^verbatim>\<open>typeof v === 'object'\<close>\<close>

fun typeof_object :: "json \<Rightarrow> bool" where
  "typeof_object JNull = True"
| "typeof_object (JArr xs) = True"
| "typeof_object (JObj kvs) = True"
| "typeof_object v = False"

definition digit_char :: "nat \<Rightarrow> char" where
  "digit_char d = char_of (48 + d)"

fun show_nat :: "nat \<Rightarrow> string" where
  "show_nat n = (if n < 10 then [digit_char n] else show_nat (n div 10) @ [digit_char (n mod 10)])"

declare show_nat.simps [simp del]

text \<open>The own properties of an array (or of a string's characters): its indices.\<close>

definition indexed :: "json list \<Rightarrow> (string \<times> json) list" where
  "indexed xs = zip (map show_nat [0..<length xs]) xs"

definition chars_of :: "string \<Rightarrow> json list" where
  "chars_of s = map (\<lambda>c. JStr [c]) s"

text \<open>\<^verbatim>\<open>o[k]\<close> on a plain object: the own property, or \<^verbatim>\<open>undefined\<close>.\<close>

fun lookup :: "(string \<times> json) list \<Rightarrow> string \<Rightarrow> json" where
  "lookup [] k = JUndefined"
| "lookup ((k', v) # kvs) k = (if k' = k then v else lookup kvs k)"

definition has_key :: "string \<Rightarrow> (string \<times> json) list \<Rightarrow> bool" where
  "has_key k kvs = (k \<in> set (map fst kvs))"

text \<open>
  \<^verbatim>\<open>v.k\<close> for a value that is neither \<^verbatim>\<open>null\<close> nor \<^verbatim>\<open>undefined\<close> (on those the
  read raises, which the callers below check first).
\<close>

fun field :: "json \<Rightarrow> string \<Rightarrow> json" where
  "field (JObj kvs) k = lookup kvs k"
| "field (JArr xs) k =
     (if k = ''length'' then JNum (of_nat (length xs)) else lookup (indexed xs) k)"
| "field (JStr s) k =
     (if k = ''length'' then JNum (of_nat (length s)) else lookup (indexed (chars_of s)) k)"
| "field v k = JUndefined"

text \<open>\<^verbatim>\<open>k in v\<close>, for a value with \<^verbatim>\<open>typeof v === 'object'\<close> that is not null.\<close>

fun has_prop :: "string \<Rightarrow> json \<Rightarrow> bool" where
  "has_prop k (JObj kvs) = has_key k kvs"
| "has_prop k (JArr xs) = (k = ''length'' \<or> has_key k (indexed xs))"
| "has_prop k v = False"

text \<open>\<^verbatim>\<open>o[k] = v\<close> on a plain object: the property keeps its place, a new one is appended.\<close>

fun obj_set :: "string \<Rightarrow> 'v \<Rightarrow> (string \<times> 'v) list \<Rightarrow> (string \<times> 'v) list" where
  "obj_set k v [] = [(k, v)]"
| "obj_set k v ((k', v') # kvs) =
     (if k' = k then (k, v) # kvs else (k', v') # obj_set k v kvs)"

text \<open>\<^verbatim>\<open>s.split(c)\<close> for a one-character separator.\<close>

fun split_on :: "char \<Rightarrow> string \<Rightarrow> string list" where
  "split_on c [] = [[]]"
| "split_on c (x # xs) =
     (if x = c then [] # split_on c xs
      else (case split_on c xs of w # ws \<Rightarrow> (x # w) # ws | [] \<Rightarrow> [[x]]))"

section \<open>DataGenerator.resolveRef\<close>

text \<open>
  The \<^verbatim>\<open>try\<close> block's first two statements:
  \<^verbatim>\<open>ref.startsWith('#') ? ref.slice(1) : ref\<close> and
  \<^verbatim>\<open>cleanRef.split('/').filter((p) => p)\<close>. Only a string has \<^verbatim>\<open>startsWith\<close>; on any
  other value the call raises a TypeError, which the \<^verbatim>\<open>catch\<close> of \<open>resolveRef\<close> handles.
\<close>

fun ref_parts :: "json \<Rightarrow> error + string list" where
  "ref_parts (JStr s) =
     Inr (filter (\<lambda>p. p \<noteq> [])
       (split_on (CHR ''/'') (case s of c # cs \<Rightarrow> (if c = CHR ''#'' then cs else s) | [] \<Rightarrow> s)))"
| "ref_parts v = Inl TypeError"

text \<open>
  The loop over the parts: \<open>None\<close> is the early \<^verbatim>\<open>return null\<close> of a part that is
  not found.
\<close>

fun walk :: "json \<Rightarrow> string list \<Rightarrow> json option" where
  "walk current [] = Some current"
| "walk current (part # parts) =
     (if truthy current \<and> typeof_object current \<and> has_prop part current
      then walk (field current part) parts
      else None)"

text \<open>
  Every value inside a document, and the values that a \<^verbatim>\<open>$ref\<close> key holds somewhere in
  it. They bound the recursion of \<open>resolveRef\<close>.
\<close>

fun nodes :: "json \<Rightarrow> json list" where
  "nodes (JArr xs) = JArr xs # concat (map nodes xs)"
| "nodes (JObj kvs) = JObj kvs # concat (map (\<lambda>(k, v). nodes v) kvs)"
| "nodes v = [v]"

definition ref_values :: "json \<Rightarrow> json set" where
  "ref_values spec = set (map (\<lambda>c. field c ''$ref'') (nodes spec))"

lemma lookup_in_snd: "has_key k kvs \<Longrightarrow> lookup kvs k \<in> snd ` set kvs"
  by (induction kvs) (force simp: has_key_def)+

lemma nodes_self: "v \<in> set (nodes v)"
  by (cases v) auto

lemma nodes_trans: "b \<in> set (nodes a) \<Longrightarrow> c \<in> set (nodes b) \<Longrightarrow> c \<in> set (nodes a)"
proof (induction a arbitrary: b c rule: nodes.induct)
  case (1 xs)
  then show ?case by (fastforce simp: nodes_self)
next
  case (2 kvs)
  then show ?case by (fastforce simp: nodes_self)
qed auto

lemma indexed_snd: "snd ` set (indexed xs) \<subseteq> set xs"
  by (auto simp: indexed_def dest: set_zip_rightD)

lemma field_child:
  assumes "typeof_object c" "has_prop p c"
  shows "field c p \<in> set (nodes c) \<or> (\<exists>n. field c p = JNum n)"
proof (cases c)
  case (JArr xs)
  show ?thesis
  proof (cases "p = ''length''")
    case True
    with JArr show ?thesis by simp
  next
    case False
    with assms JArr have "lookup (indexed xs) p \<in> snd ` set (indexed xs)"
      by (simp add: lookup_in_snd)
    then have "lookup (indexed xs) p \<in> set xs"
      using indexed_snd by blast
    with JArr False show ?thesis
      using nodes_self by fastforce
  qed
next
  case (JObj kvs)
  with assms have "lookup kvs p \<in> snd ` set kvs"
    by (simp add: lookup_in_snd)
  with JObj show ?thesis
    using nodes_self by fastforce
qed (use assms in auto)

lemma walk_nodes:
  "walk c ps = Some c' \<Longrightarrow> c' \<in> set (nodes c) \<or> (\<exists>n. c' = JNum n)"
proof (induction ps arbitrary: c)
  case Nil
  then show ?case by (simp add: nodes_self)
next
  case (Cons p ps)
  then have ok: "typeof_object c" "has_prop p c" and w: "walk (field c p) ps = Some c'"
    by (auto split: if_splits)
  from Cons.IH [OF w] have "c' \<in> set (nodes (field c p)) \<or> (\<exists>n. c' = JNum n)" .
  moreover from field_child [OF ok] have "field c p \<in> set (nodes c) \<or> (\<exists>n. field c p = JNum n)" .
  ultimately show ?case
    by (auto dest: nodes_trans)
qed

lemma walk_ref_values:
  assumes "walk spec ps = Some c" "truthy (field c ''$ref'')"
  shows "field c ''$ref'' \<in> ref_values spec"
proof -
  from walk_nodes [OF assms(1)] assms(2) have "c \<in> set (nodes spec)"
    by auto
  then show ?thesis by (auto simp: ref_values_def)
qed

lemma finite_ref_values: "finite (ref_values spec)"
  by (simp add: ref_values_def)

text \<open>
  \<^verbatim>\<open>private resolveRef(ref: string, visitedRefs: Set<string>): any\<close>, with
  \<^verbatim>\<open>this.spec\<close> as the first argument. The set is passed by reference in the source, so
  the function returns it next to the result. The \<^verbatim>\<open>catch\<close> branch is the \<open>Inl\<close> case.
\<close>

function resolveRef :: "json \<Rightarrow> json \<Rightarrow> json set \<Rightarrow> json \<times> json set" where
  "resolveRef spec ref visitedRefs =
     (if ref \<in> visitedRefs then (JNull, visitedRefs)
      else if \<not> truthy spec then (JNull, visitedRefs)
      else
        (case ref_parts ref of
           Inl e \<Rightarrow> (JNull, insert ref visitedRefs - {ref})
         | Inr parts \<Rightarrow>
             (case walk spec parts of
                None \<Rightarrow> (JNull, insert ref visitedRefs - {ref})
              | Some current \<Rightarrow>
                  if truthy current \<and> truthy (field current ''$ref'')
                  then (case resolveRef spec (field current ''$ref'') (insert ref visitedRefs) of
                          (resolved, visited') \<Rightarrow> (resolved, visited' - {ref}))
                  else (current, insert ref visitedRefs - {ref}))))"
  by pat_completeness auto
termination
proof (relation "measure (\<lambda>(spec, ref, visited).
          2 * card (insert ref (ref_values spec) - visited) + (if ref \<in> visited then 0 else 1))",
       goal_cases)
  case 1
  show ?case by simp
next
  case (2 spec ref visitedRefs parts current)
  let ?r = "field current ''$ref''"
  let ?R = "ref_values spec"
  from 2 have inR: "?r \<in> ?R"
    using walk_ref_values by blast
  have fin: "finite (?R - insert ref visitedRefs)"
    using finite_ref_values by blast
  from inR have eq1: "insert ?r ?R - insert ref visitedRefs = ?R - insert ref visitedRefs"
    by blast
  from 2 have eq2: "insert ref ?R - visitedRefs = insert ref (?R - insert ref visitedRefs)"
    by blast
  have "card (insert ref ?R - visitedRefs) = Suc (card (?R - insert ref visitedRefs))"
    unfolding eq2 using fin by simp
  then show ?case
    using 2 by (simp add: eq1)
qed

declare resolveRef.simps [simp del]

section \<open>The random source\<close>

text \<open>
  Every random choice of the fake-data library is read from a source the caller
  supplies: a stream of natural numbers for the choices and a stream of strings for the
  library's semantic generators (\<^verbatim>\<open>faker.string.uuid()\<close>, \<^verbatim>\<open>faker.internet.email()\<close>, ...).
  A statement that holds for every source holds for every run of the code.
\<close>

datatype rand = Rand (numbers: "nat \<Rightarrow> nat") (texts: "nat \<Rightarrow> string")

definition next_nat :: "rand \<Rightarrow> nat \<times> rand" where
  "next_nat r = (numbers r 0, Rand (\<lambda>i. numbers r (Suc i)) (texts r))"

definition next_text :: "rand \<Rightarrow> string \<times> rand" where
  "next_text r = (texts r 0, Rand (numbers r) (\<lambda>i. texts r (Suc i)))"

text \<open>
  A run returns a value, raises, or exceeds every bound on the depth of its recursion
  (\<open>OutOfFuel\<close>, for the functions below that take the bound as their first argument).
\<close>

datatype 'a result = Returns 'a | Raises error | OutOfFuel

definition bind :: "'a result \<Rightarrow> ('a \<Rightarrow> 'b result) \<Rightarrow> 'b result" where
  "bind m f = (case m of Returns x \<Rightarrow> f x | Raises e \<Rightarrow> Raises e | OutOfFuel \<Rightarrow> OutOfFuel)"

text \<open>A numeric argument of a library call; any other value there would be coerced.\<close>

fun num_arg :: "json \<Rightarrow> rat result" where
  "num_arg (JNum n) = Returns n"
| "num_arg v = Raises Unmodelled"

text \<open>
  Modelled from the spec: the fake-data library (\<^verbatim>\<open>@faker-js/faker\<close>) is the spec's
  external PrimitiveValueSource and not part of the repository. \<^verbatim>\<open>faker.number.int({min, max})\<close>
  draws an integer of the closed interval, after rounding the bounds inwards, and
  raises when the interval holds no integer; \<^verbatim>\<open>faker.number.float({min, max})\<close> draws a
  number of \<open>[min, max)\<close> (\<open>min\<close> itself when the bounds are equal) and raises when
  \<open>max < min\<close>; \<^verbatim>\<open>faker.datatype.boolean()\<close> draws a boolean;
  \<^verbatim>\<open>faker.helpers.arrayElement(xs)\<close> picks an element of a non-empty array;
  \<^verbatim>\<open>faker.string.alphanumeric(n)\<close> draws \<open>n\<close> characters.
\<close>

definition faker_int :: "rat \<Rightarrow> rat \<Rightarrow> rand \<Rightarrow> (int \<times> rand) result" where
  "faker_int lo hi r =
     (if \<lfloor>hi\<rfloor> < \<lceil>lo\<rceil> then Raises FakerError
      else (case next_nat r of (n, r') \<Rightarrow>
              Returns (\<lceil>lo\<rceil> + int (n mod nat (\<lfloor>hi\<rfloor> - \<lceil>lo\<rceil> + 1)), r')))"

definition faker_float :: "rat \<Rightarrow> rat \<Rightarrow> rand \<Rightarrow> (rat \<times> rand) result" where
  "faker_float lo hi r =
     (if hi < lo then Raises FakerError
      else (case next_nat r of (n, r') \<Rightarrow>
              Returns (lo + (of_nat (n mod 2 ^ 53) / 2 ^ 53) * (hi - lo), r')))"

definition faker_boolean :: "rand \<Rightarrow> bool \<times> rand" where
  "faker_boolean r = (case next_nat r of (n, r') \<Rightarrow> (odd n, r'))"

definition arrayElement :: "json list \<Rightarrow> rand \<Rightarrow> (json \<times> rand) result" where
  "arrayElement xs r =
     (if xs = [] then Raises FakerError
      else (case next_nat r of (n, r') \<Rightarrow> Returns (xs ! (n mod length xs), r')))"

definition alnum_char :: "nat \<Rightarrow> char" where
  "alnum_char n =
     ''0123456789ABCDEFGHIJKLMNOPQRSTUVWXYZabcdefghijklmnopqrstuvwxyz'' ! (n mod 62)"

fun alphanumeric :: "nat \<Rightarrow> rand \<Rightarrow> string \<times> rand" where
  "alphanumeric 0 r = ([], r)"
| "alphanumeric (Suc n) r =
     (case next_nat r of (k, r1) \<Rightarrow>
        (case alphanumeric n r1 of (s, r2) \<Rightarrow> (alnum_char k # s, r2)))"

section \<open>DataGenerator\<close>

text \<open>\<^verbatim>\<open>a || b\<close>\<close>

definition js_or :: "json \<Rightarrow> json \<Rightarrow> json" where
  "js_or a b = (if truthy a then a else b)"

text \<open>
  The guard \<^verbatim>\<open>x && x.length > 0\<close> and what \<open>x\<close> then is: an array with elements, a
  string with characters, or an object that carries a \<^verbatim>\<open>length\<close> of its own (not
  translated).
\<close>

datatype seq = NoElems | Elems "json list" | Chars string | Outside

fun seq_view :: "json \<Rightarrow> seq" where
  "seq_view (JArr xs) = (if xs = [] then NoElems else Elems xs)"
| "seq_view (JStr s) = (if s = [] then NoElems else Chars s)"
| "seq_view (JObj kvs) =
     (case lookup kvs ''length'' of
        JNum n \<Rightarrow> if 0 < n then Outside else NoElems
      | v \<Rightarrow> if truthy v then Outside else NoElems)"
| "seq_view v = NoElems"

text \<open>
  The own enumerable properties that \<^verbatim>\<open>Object.entries(v)\<close> lists and that an object
  spread \<^verbatim>\<open>{...v}\<close> copies (nothing for \<^verbatim>\<open>null\<close> and \<^verbatim>\<open>undefined\<close>, which only the
  spread is applied to).
\<close>

fun own_entries :: "json \<Rightarrow> (string \<times> json) list" where
  "own_entries (JObj kvs) = kvs"
| "own_entries (JArr xs) = indexed xs"
| "own_entries (JStr s) = indexed (chars_of s)"
| "own_entries v = []"

text \<open>\<^verbatim>\<open>{...a, ...b}\<close>, given the properties of both.\<close>

definition obj_assign :: "(string \<times> json) list \<Rightarrow> (string \<times> json) list \<Rightarrow> (string \<times> json) list" where
  "obj_assign target source = foldl (\<lambda>acc (k, v). obj_set k v acc) target source"

text \<open>\<^verbatim>\<open>[...x]\<close>: the elements of an iterable.\<close>

fun iterate :: "json \<Rightarrow> json list result" where
  "iterate (JArr xs) = Returns xs"
| "iterate (JStr s) = Returns (chars_of s)"
| "iterate v = Raises TypeError"

text \<open>\<^verbatim>\<open>[...new Set(xs)]\<close>: the first occurrence of every element, in order.\<close>

fun uniq :: "json list \<Rightarrow> json list" where
  "uniq [] = []"
| "uniq (x # xs) = x # uniq (filter (\<lambda>y. y \<noteq> x) xs)"

text \<open>
  The two statements of \<open>mergeSchemas\<close> that are written twice, before and after the
  spread: \<^verbatim>\<open>merged.properties = { ...merged.properties, ...currentSchema.properties }\<close>
  and \<^verbatim>\<open>merged.required = [...new Set([...(merged.required || []), ...currentSchema.required])]\<close>.
\<close>

definition merge_properties :: "(string \<times> json) list \<Rightarrow> json \<Rightarrow> (string \<times> json) list" where
  "merge_properties merged currentSchema =
     obj_set ''properties''
       (JObj (obj_assign (own_entries (lookup merged ''properties''))
                (own_entries (field currentSchema ''properties''))))
       merged"

definition merge_required :: "(string \<times> json) list \<Rightarrow> json \<Rightarrow> (string \<times> json) list result" where
  "merge_required merged currentSchema =
     bind (iterate (js_or (lookup merged ''required'') (JArr []))) (\<lambda>existingRequired.
     bind (iterate (field currentSchema ''required'')) (\<lambda>currentRequired.
       Returns (obj_set ''required'' (JArr (uniq (existingRequired @ currentRequired))) merged)))"

text \<open>The body of the loop of \<open>mergeSchemas\<close>, for \<open>i = 1, ..., schemas.length - 1\<close>.\<close>

fun merge_loop :: "(string \<times> json) list \<Rightarrow> json list \<Rightarrow> json result" where
  "merge_loop merged [] = Returns (JObj merged)"
| "merge_loop merged (currentSchema # rest) =
     (if nullish currentSchema then Raises TypeError
      else
        bind (Returns (if truthy (field currentSchema ''properties'')
                       then merge_properties merged currentSchema else merged)) (\<lambda>m1.
        bind (if truthy (field currentSchema ''required'')
              then merge_required m1 currentSchema else Returns m1) (\<lambda>m2.
        bind (Returns (obj_assign m2 (own_entries currentSchema))) (\<lambda>m3.
        bind (Returns (if truthy (lookup m3 ''properties'') \<and> truthy (field currentSchema ''properties'')
                       then merge_properties m3 currentSchema else m3)) (\<lambda>m4.
        bind (if truthy (field currentSchema ''required'')
              then merge_required m4 currentSchema else Returns m4) (\<lambda>m5.
          merge_loop m5 rest))))))"

fun mergeSchemas :: "json list \<Rightarrow> json result" where
  "mergeSchemas [] = Returns (JObj [])"
| "mergeSchemas [schema] = Returns schema"
| "mergeSchemas (schema # rest) = merge_loop (own_entries schema) rest"

text \<open>
  The formats of \<open>generateString\<close> that have a generator of the library; each returns a
  string of the source's text stream.
\<close>

definition string_formats :: "string list" where
  "string_formats = [''uuid'', ''uuid4'', ''email'', ''date-time'', ''datetime'', ''date'',
     ''uri'', ''url'', ''hostname'', ''ipv4'', ''ipv6'', ''password'']"

definition generateString :: "json \<Rightarrow> rand \<Rightarrow> (json \<times> rand) result" where
  "generateString schema r =
     (let format = js_or (field schema ''format'') (JStr []);
          enumValues = field schema ''enum''
      in case seq_view enumValues of
           Elems xs \<Rightarrow> arrayElement xs r
         | Chars s \<Rightarrow> arrayElement (chars_of s) r
         | Outside \<Rightarrow> Raises Unmodelled
         | NoElems \<Rightarrow>
             if format \<in> set (map JStr string_formats)
             then (case next_text r of (s, r') \<Rightarrow> Returns (JStr s, r'))
             else
               bind (num_arg (js_or (field schema ''minLength'') (JNum 1))) (\<lambda>minLength.
               bind (num_arg (js_or (field schema ''maxLength'') (JNum 50))) (\<lambda>maxLength.
               bind (faker_int minLength maxLength r) (\<lambda>(len, r1).
                 (case alphanumeric (nat len) r1 of (s, r2) \<Rightarrow> Returns (JStr s, r2))))))"

text \<open>\<^verbatim>\<open>if (multipleOf) { value = Math.floor(value / multipleOf) * multipleOf; }\<close>\<close>

definition snap :: "rat \<Rightarrow> json \<Rightarrow> rat result" where
  "snap v multipleOf =
     (if truthy multipleOf
      then bind (num_arg multipleOf) (\<lambda>m. Returns (of_int \<lfloor>v / m\<rfloor> * m))
      else Returns v)"

definition generateNumber :: "json \<Rightarrow> rand \<Rightarrow> (json \<times> rand) result" where
  "generateNumber schema r =
     (let isInteger = (field schema ''type'' = JStr ''integer'');
          minimum = (if field schema ''minimum'' \<noteq> JUndefined
                     then field schema ''minimum'' else JNum 0);
          maximum = (if field schema ''maximum'' \<noteq> JUndefined
                     then field schema ''maximum'' else JNum 1000);
          multipleOf = field schema ''multipleOf''
      in bind (num_arg minimum) (\<lambda>lo.
         bind (num_arg maximum) (\<lambda>hi.
           if isInteger
           then bind (faker_int lo hi r) (\<lambda>(v, r1).
                  bind (snap (of_int v) multipleOf) (\<lambda>v'. Returns (JNum v', r1)))
           else bind (faker_float lo hi r) (\<lambda>(v, r1).
                  bind (snap v multipleOf) (\<lambda>v'. Returns (JNum v', r1))))))"

definition generateBoolean :: "json \<Rightarrow> rand \<Rightarrow> (json \<times> rand) result" where
  "generateBoolean schema r = (case faker_boolean r of (b, r') \<Rightarrow> Returns (JBool b, r'))"

text \<open>
  \<open>generateArray\<close> and \<open>generateObject\<close> call \<^verbatim>\<open>this.generateFromSchema\<close> back; it is
  their first argument \<open>g\<close>. The set of visited references is passed by reference in
  the source, so every generator takes it and returns it with the random source.
\<close>

type_synonym generator = "json \<Rightarrow> json set \<Rightarrow> rand \<Rightarrow> (json \<times> json set \<times> rand) result"

text \<open>The loop \<^verbatim>\<open>for (let i = 0; i < length; i++) array.push(...)\<close>.\<close>

fun push_items :: "generator \<Rightarrow> json \<Rightarrow> nat \<Rightarrow> json list \<Rightarrow> json set \<Rightarrow> rand
    \<Rightarrow> (json \<times> json set \<times> rand) result" where
  "push_items g itemsSchema 0 array visitedRefs r = Returns (JArr array, visitedRefs, r)"
| "push_items g itemsSchema (Suc n) array visitedRefs r =
     bind (g itemsSchema visitedRefs r) (\<lambda>(x, visited1, r1).
       push_items g itemsSchema n (array @ [x]) visited1 r1)"

definition generateArray :: "generator \<Rightarrow> generator" where
  "generateArray g schema visitedRefs r =
     bind (num_arg (js_or (field schema ''minItems'') (JNum 1))) (\<lambda>minItems.
     bind (num_arg (js_or (field schema ''maxItems'') (JNum 5))) (\<lambda>maxItems.
     bind (faker_int minItems maxItems r) (\<lambda>(len, r1).
       push_items g (js_or (field schema ''items'') (JObj [(''type'', JStr ''string'')]))
         (nat len) [] visitedRefs r1)))"

text \<open>\<^verbatim>\<open>schema.required?.includes(key) || false\<close>\<close>

fun required_includes :: "json \<Rightarrow> string \<Rightarrow> bool result" where
  "required_includes JUndefined key = Returns False"
| "required_includes JNull key = Returns False"
| "required_includes (JArr xs) key = Returns (JStr key \<in> set xs)"
| "required_includes (JStr s) key = Returns (sublist key s)"
| "required_includes v key = Raises TypeError"

text \<open>The loop over \<^verbatim>\<open>Object.entries(properties)\<close>; \<open>obj\<close> is the object under construction.\<close>

fun property_loop :: "generator \<Rightarrow> json \<Rightarrow> (string \<times> json) list \<Rightarrow> (string \<times> json) list
    \<Rightarrow> json set \<Rightarrow> rand \<Rightarrow> ((string \<times> json) list \<times> json set \<times> rand) result" where
  "property_loop g schema [] obj visitedRefs r = Returns (obj, visitedRefs, r)"
| "property_loop g schema ((key, propSchema) # entries) obj visitedRefs r =
     bind (required_includes (field schema ''required'') key) (\<lambda>isRequired.
       if isRequired
       then bind (g propSchema visitedRefs r) (\<lambda>(v, visited1, r1).
              property_loop g schema entries (obj_set key v obj) visited1 r1)
       else (case faker_boolean r of (coin, r0) \<Rightarrow>
              if coin
              then bind (g propSchema visitedRefs r0) (\<lambda>(v, visited1, r1).
                     property_loop g schema entries (obj_set key v obj) visited1 r1)
              else property_loop g schema entries obj visitedRefs r0))"

text \<open>
  The loop \<^verbatim>\<open>for (let i = 0; i < additionalCount; i++)\<close>. \<^verbatim>\<open>faker.number.int()\<close> without
  bounds draws from \<open>0\<close> to \<^verbatim>\<open>Number.MAX_SAFE_INTEGER\<close>.
\<close>

fun additional_loop :: "generator \<Rightarrow> json \<Rightarrow> nat \<Rightarrow> (string \<times> json) list
    \<Rightarrow> json set \<Rightarrow> rand \<Rightarrow> (json \<times> json set \<times> rand) result" where
  "additional_loop g additionalProperties 0 obj visitedRefs r = Returns (JObj obj, visitedRefs, r)"
| "additional_loop g additionalProperties (Suc n) obj visitedRefs r =
     (case alphanumeric 8 r of (random8, r1) \<Rightarrow>
        if typeof_object additionalProperties
        then bind (g additionalProperties visitedRefs r1) (\<lambda>(v, visited2, r2).
               additional_loop g additionalProperties n
                 (obj_set (''additional_'' @ random8) v obj) visited2 r2)
        else if additionalProperties = JBool True
        then (case alphanumeric 10 r1 of (s, r2) \<Rightarrow>
               bind (faker_int 0 9007199254740991 r2) (\<lambda>(i, r3).
                 (case faker_boolean r3 of (b, r4) \<Rightarrow>
                    bind (arrayElement [JStr s, JNum (of_int i), JBool b] r4) (\<lambda>(v, r5).
                      additional_loop g additionalProperties n
                        (obj_set (''additional_'' @ random8) v obj) visitedRefs r5))))
        else additional_loop g additionalProperties n obj visitedRefs r1)"

definition generateObject :: "generator \<Rightarrow> generator" where
  "generateObject g schema visitedRefs r =
     bind (property_loop g schema
             (own_entries (js_or (field schema ''properties'') (JObj []))) [] visitedRefs r)
       (\<lambda>(obj, visited1, r1).
          if truthy (field schema ''additionalProperties'')
          then bind (faker_int 0 3 r1) (\<lambda>(additionalCount, r2).
                 additional_loop g (field schema ''additionalProperties'')
                   (nat additionalCount) obj visited1 r2)
          else Returns (JObj obj, visited1, r1))"

text \<open>
  \<^verbatim>\<open>const type = schema.type || this.inferType(schema)\<close> (\<open>inferType\<close> returns
  \<^verbatim>\<open>'string'\<close> on both of its paths) and the \<^verbatim>\<open>switch (type)\<close>.
\<close>

definition inferType :: "json \<Rightarrow> json" where
  "inferType schema =
     (if truthy (field schema ''format'')
      then (if field schema ''format'' \<in> set (map JStr
                  [''uuid'', ''email'', ''date-time'', ''date'', ''uri'', ''url''])
            then JStr ''string'' else JStr ''string'')
      else JStr ''string'')"

definition generate_by_type :: "generator \<Rightarrow> generator" where
  "generate_by_type g schema visitedRefs r =
     (let type = js_or (field schema ''type'') (inferType schema) in
      if type = JStr ''string''
      then bind (generateString schema r) (\<lambda>(v, r1). Returns (v, visitedRefs, r1))
      else if type = JStr ''number'' \<or> type = JStr ''integer''
      then bind (generateNumber schema r) (\<lambda>(v, r1). Returns (v, visitedRefs, r1))
      else if type = JStr ''boolean''
      then bind (generateBoolean schema r) (\<lambda>(v, r1). Returns (v, visitedRefs, r1))
      else if type = JStr ''array'' then generateArray g schema visitedRefs r
      else if type = JStr ''object'' then generateObject g schema visitedRefs r
      else if type = JStr ''null'' then Returns (JNull, visitedRefs, r)
      else Returns (JNull, visitedRefs, r))"

text \<open>
  The callback of \<^verbatim>\<open>schema.allOf.map\<close>: a member with a \<^verbatim>\<open>$ref\<close> is replaced by
  \<^verbatim>\<open>this.resolveRef(s.$ref, visitedRefs) || s\<close>. Reading \<^verbatim>\<open>s.$ref\<close> raises when the
  member is \<^verbatim>\<open>null\<close>.
\<close>

fun resolve_members :: "json \<Rightarrow> json list \<Rightarrow> json set \<Rightarrow> (json list \<times> json set) result" where
  "resolve_members spec [] visitedRefs = Returns ([], visitedRefs)"
| "resolve_members spec (s # ss) visitedRefs =
     (if nullish s then Raises TypeError
      else if truthy (field s ''$ref'')
      then (case resolveRef spec (field s ''$ref'') visitedRefs of (resolved, visited1) \<Rightarrow>
              bind (resolve_members spec ss visited1) (\<lambda>(rest, visited2).
                Returns (js_or resolved s # rest, visited2)))
      else bind (resolve_members spec ss visitedRefs) (\<lambda>(rest, visited2).
             Returns (s # rest, visited2)))"

text \<open>
  \<^verbatim>\<open>generateFromSchema(schema: any, visitedRefs: Set<string> = new Set()): any\<close>, with
  \<^verbatim>\<open>this.spec\<close> as an argument. The first argument bounds the depth of the recursion:
  the source has no bound of its own, and a run that needs more than every bound never
  returns.
\<close>

fun generateFromSchema :: "nat \<Rightarrow> json \<Rightarrow> generator" where
  "generateFromSchema 0 spec schema visitedRefs r = OutOfFuel"
| "generateFromSchema (Suc n) spec schema visitedRefs r =
     (if \<not> truthy schema then Returns (JNull, visitedRefs, r)
      else if truthy (field schema ''$ref'')
      then (case resolveRef spec (field schema ''$ref'') visitedRefs of
              (resolvedSchema, visited1) \<Rightarrow>
                if truthy resolvedSchema
                then generateFromSchema n spec resolvedSchema visited1 r
                else Returns (JObj [], visited1, r))
      else
        (case seq_view (field schema ''oneOf'') of
           Elems xs \<Rightarrow> bind (arrayElement xs r) (\<lambda>(selectedSchema, r1).
                        generateFromSchema n spec selectedSchema visitedRefs r1)
         | Chars s \<Rightarrow> bind (arrayElement (chars_of s) r) (\<lambda>(selectedSchema, r1).
                        generateFromSchema n spec selectedSchema visitedRefs r1)
         | Outside \<Rightarrow> Raises Unmodelled
         | NoElems \<Rightarrow>
        (case seq_view (field schema ''anyOf'') of
           Elems xs \<Rightarrow> bind (arrayElement xs r) (\<lambda>(selectedSchema, r1).
                        generateFromSchema n spec selectedSchema visitedRefs r1)
         | Chars s \<Rightarrow> bind (arrayElement (chars_of s) r) (\<lambda>(selectedSchema, r1).
                        generateFromSchema n spec selectedSchema visitedRefs r1)
         | Outside \<Rightarrow> Raises Unmodelled
         | NoElems \<Rightarrow>
        (case seq_view (field schema ''allOf'') of
           Elems xs \<Rightarrow> bind (resolve_members spec xs visitedRefs) (\<lambda>(resolvedSchemas, visited1).
                        bind (mergeSchemas resolvedSchemas) (\<lambda>merged.
                          generateFromSchema n spec merged visited1 r))
         | Chars s \<Rightarrow> Raises TypeError
         | Outside \<Rightarrow> Raises Unmodelled
         | NoElems \<Rightarrow>
             generate_by_type (\<lambda>s v r'. generateFromSchema n spec s v r')
               schema visitedRefs r))))"

section \<open>TemplateEngine\<close>

text \<open>
  \<^verbatim>\<open>String.prototype.trim\<close> and \<^verbatim>\<open>toLowerCase\<close> on 8-bit code units: the white space is
  tab, line feed, vertical tab, form feed, carriage return, space and no-break space; the
  upper-case letters are A to Z and the Latin-1 letters 192 to 222 without 215.
\<close>

definition is_space :: "char \<Rightarrow> bool" where
  "is_space c = (of_char c \<in> set [9, 10, 11, 12, 13, 32, 160 :: nat])"

definition trim :: "string \<Rightarrow> string" where
  "trim s = rev (dropWhile is_space (rev (dropWhile is_space s)))"

definition lower_char :: "char \<Rightarrow> char" where
  "lower_char c =
     (let n = (of_char c :: nat)
      in if (65 \<le> n \<and> n \<le> 90) \<or> (192 \<le> n \<and> n \<le> 222 \<and> n \<noteq> 215)
         then char_of (n + 32) else c)"

definition toLowerCase :: "string \<Rightarrow> string" where
  "toLowerCase s = map lower_char s"

text \<open>The \<^verbatim>\<open>case\<close> labels of the \<^verbatim>\<open>switch (trimmedName)\<close> of \<open>processTemplate\<close>, in order.\<close>

definition template_names :: "string list" where
  "template_names = [
    ''uuid'', ''date'', ''datetime'', ''date-past'', ''date-future'',
     ''date-birthdate'', ''email'', ''name'', ''fullname'', ''firstname'',
     ''lastname'', ''username'', ''nickname'', ''nick'', ''password'', ''url'', ''ip'',
     ''ipv6'', ''phone'', ''address'', ''city'', ''country'', ''zipcode'',
     ''latitude'', ''longitude'', ''int'', ''integer'', ''float'', ''string'',
     ''random'', ''timestamp'', ''timestamp-ms'', ''timestamp-s'', ''creditcard'',
     ''credit-card'', ''cvv'', ''iban'', ''bic'', ''account-number'', ''amount'',
     ''price'', ''currency-code'', ''currency-name'', ''currency-symbol'',
     ''bitcoin-address'', ''ethereum-address'', ''product-name'',
     ''product-description'', ''product-material'', ''product-adjective'',
     ''department'', ''isbn-10'', ''isbn-13'', ''company-name'', ''company'',
     ''company-catchphrase'', ''company-buzzphrase'', ''word'', ''words'',
     ''sentence'', ''sentences'', ''paragraph'', ''paragraphs'', ''text'', ''lorem'',
     ''image-url'', ''image'', ''avatar'', ''color'', ''color-hex'', ''color-rgb'',
     ''state'', ''state-abbr'', ''street-name'', ''building-number'', ''timezone'',
     ''country-code'', ''job-title'', ''job'', ''job-type'', ''bio'', ''gender'',
     ''sex'', ''age'', ''middle-name'', ''prefix'', ''suffix'', ''domain'',
     ''domain-word'', ''user-agent'', ''mac-address'', ''port'', ''animal-type'',
     ''animal-dog'', ''animal-cat'', ''animal-bird'', ''hacker-phrase'',
     ''hacker-verb'', ''hacker-noun'', ''hacker-adjective'', ''hacker-abbreviation'',
     ''role'', ''permission'', ''order-id'', ''order_id'', ''order-number'', ''order'',
     ''invoice-id'', ''invoice_id'', ''invoice-number'', ''transaction-id'',
     ''transaction_id'', ''txn-id'', ''payment-id'', ''payment_id'', ''refund-id'',
     ''refund_id'', ''ticket-id'', ''ticket_id'', ''ticket-number'', ''booking-id'',
     ''booking_id'', ''reservation-id'', ''reservation_id'', ''subscription-id'',
     ''subscription_id'', ''session-id'', ''session_id'', ''token'', ''api-key'',
     ''api_key'', ''secret-key'', ''secret_key'', ''access-token'', ''access_token'',
     ''refresh-token'', ''refresh_token'', ''slug'', ''url-slug'', ''hash'',
     ''md5-hash'', ''sha256-hash'', ''status'', ''order-status'', ''payment-status'',
     ''user-status'', ''version'', ''semver'', ''category'', ''tag'', ''tags'',
     ''rating'', ''score'', ''percentage'', ''promo-code'', ''promocode'',
     ''coupon-code'', ''discount-code'', ''referral-code'', ''priority'',
     ''file-extension'', ''mime-type'', ''date-recent'', ''date-soon'', ''date-month'',
     ''date-weekday'', ''alpha'', ''alphabetic'', ''numeric'', ''hex'', ''base64'',
     ''nanoid'', ''boolean'', ''bool'']"

text \<open>
  Modelled from the spec: every branch of the \<^verbatim>\<open>switch\<close> but the default one returns
  what a generator of the external fake-data library (or the clock) produces from the
  parameters; the library is not part of the repository. The result is a string of the
  source's text stream.
\<close>

definition catalog_entry :: "string \<Rightarrow> string list \<Rightarrow> rand \<Rightarrow> string \<times> rand" where
  "catalog_entry trimmedName params r = next_text r"

text \<open>
  \<^verbatim>\<open>private processTemplate(template: string): string\<close>.
  \<^verbatim>\<open>const [name, ...params] = template.split(':')\<close>; a split never returns an empty
  array, so the second case below is never taken.
\<close>

definition processTemplate :: "string \<Rightarrow> rand \<Rightarrow> string \<times> rand" where
  "processTemplate template r =
     (case split_on (CHR '':'') template of
        name # params \<Rightarrow>
          (let trimmedName = toLowerCase (trim name)
           in if trimmedName \<in> set template_names
              then catalog_entry trimmedName params r
              else (''{{'' @ template @ ''}}'', r))
      | [] \<Rightarrow> (''{{'' @ template @ ''}}'', r))"

text \<open>
  A match of \<^verbatim>\<open>/\{\{([^}]+)\}\}/\<close> at the start of a string: the captured group and the
  text after the match. The group is the longest run of characters other than
  \<^verbatim>\<open>}\<close>; a shorter one would have to be followed by \<^verbatim>\<open>}\<close>.
\<close>

fun match_placeholder :: "string \<Rightarrow> (string \<times> string) option" where
  "match_placeholder (a # b # rest) =
     (if a = CHR ''{'' \<and> b = CHR ''{''
      then (let template = takeWhile (\<lambda>c. c \<noteq> CHR ''}'') rest;
                after = dropWhile (\<lambda>c. c \<noteq> CHR ''}'') rest
            in if template = [] then None
               else (case after of
                       c1 # c2 # rest' \<Rightarrow>
                         if c1 = CHR ''}'' \<and> c2 = CHR ''}'' then Some (template, rest') else None
                     | _ \<Rightarrow> None))
      else None)"
| "match_placeholder s = None"

lemma match_placeholder_shorter:
  "match_placeholder s = Some (template, rest) \<Longrightarrow> length rest < length s"
proof (cases s rule: match_placeholder.cases)
  case (1 a b tl)
  assume m: "match_placeholder s = Some (template, rest)"
  obtain c1 c2 where "dropWhile (\<lambda>c. c \<noteq> CHR ''}'') tl = c1 # c2 # rest"
    using m 1 by (auto simp: Let_def split: if_splits list.splits)
  then have "length (dropWhile (\<lambda>c. c \<noteq> CHR ''}'') tl) = Suc (Suc (length rest))"
    by simp
  moreover have "length (dropWhile (\<lambda>c. c \<noteq> CHR ''}'') tl) \<le> length tl"
    by (rule length_dropWhile_le)
  ultimately show ?thesis using 1 by simp
qed auto

text \<open>
  \<^verbatim>\<open>private processString(str: string): string\<close>: \<^verbatim>\<open>str.replace(templateRegex, ...)\<close>
  with the global flag replaces the matches from left to right, each search starting
  where the last match ended.
\<close>

function processString :: "string \<Rightarrow> rand \<Rightarrow> string \<times> rand" where
  "processString [] r = ([], r)"
| "processString (c # s) r =
     (case match_placeholder (c # s) of
        Some (template, rest) \<Rightarrow>
          (case processTemplate (trim template) r of (replacement, r1) \<Rightarrow>
             (case processString rest r1 of (out, r2) \<Rightarrow> (replacement @ out, r2)))
      | None \<Rightarrow>
          (case processString s r of (out, r1) \<Rightarrow> (c # out, r1)))"
  by pat_completeness auto
termination
  by (relation "measure (\<lambda>(s, r). length s)") (auto dest: match_placeholder_shorter)

declare processString.simps(2) [simp del]

text \<open>
  \<^verbatim>\<open>process\<close>, \<^verbatim>\<open>processArray\<close> and \<^verbatim>\<open>processObject\<close> on a value tree. The third
  argument of \<open>processObject\<close> is \<^verbatim>\<open>result\<close>, the object under construction.
\<close>

fun process :: "json \<Rightarrow> rand \<Rightarrow> json \<times> rand"
  and processArray :: "json list \<Rightarrow> rand \<Rightarrow> json list \<times> rand"
  and processObject :: "(string \<times> json) list \<Rightarrow> (string \<times> json) list \<Rightarrow> rand
        \<Rightarrow> (string \<times> json) list \<times> rand" where
  "process (JStr s) r = (case processString s r of (s', r') \<Rightarrow> (JStr s', r'))"
| "process (JObj kvs) r = (case processObject kvs [] r of (result, r') \<Rightarrow> (JObj result, r'))"
| "process (JArr xs) r = (case processArray xs r of (ys, r') \<Rightarrow> (JArr ys, r'))"
| "process JUndefined r = (JUndefined, r)"
| "process JNull r = (JNull, r)"
| "process (JBool b) r = (JBool b, r)"
| "process (JNum n) r = (JNum n, r)"
| "processArray [] r = ([], r)"
| "processArray (item # items) r =
     (case process item r of (y, r1) \<Rightarrow>
        (case processArray items r1 of (ys, r2) \<Rightarrow> (y # ys, r2)))"
| "processObject [] result r = (result, r)"
| "processObject ((key, v) # entries) result r =
     (case processString key r of (processedKey, r1) \<Rightarrow>
        (case process v r1 of (v', r2) \<Rightarrow>
           processObject entries (obj_set processedKey v' result) r2))"

section \<open>TemplateEngine on a store\<close>

text \<open>
  Objects and arrays of JavaScript are references into a store, and an assignment to a
  property changes the cell that every holder of the reference sees. To state what
  \<open>process\<close> does to its argument, the same three methods are translated once more with
  the store explicit: a value is a primitive or an address, \<^verbatim>\<open>{}\<close> and
  \<^verbatim>\<open>Array.prototype.map\<close> allocate a new cell at the end of the store, and
  \<^verbatim>\<open>result[processedKey] = ...\<close> writes into the cell of \<open>result\<close>. The first argument
  bounds the depth of the recursion (a store can hold a cyclic structure).
\<close>

type_synonym addr = nat

datatype ref_value = VUndefined | VNull | VBool bool | VNum rat | VStr string | VRef addr

datatype cell = ObjectCell "(string \<times> ref_value) list" | ArrayCell "ref_value list"

type_synonym store = "cell list"

type_synonym processor = "ref_value \<Rightarrow> store \<Rightarrow> rand \<Rightarrow> (ref_value \<times> store \<times> rand) result"

text \<open>\<^verbatim>\<open>result[key] = v\<close> and \<^verbatim>\<open>A[k] = v\<close> for the cell at an address.\<close>

definition write_property :: "addr \<Rightarrow> string \<Rightarrow> ref_value \<Rightarrow> store \<Rightarrow> store" where
  "write_property a key v h =
     (if a < length h
      then (case h ! a of
              ObjectCell kvs \<Rightarrow> h[a := ObjectCell (obj_set key v kvs)]
            | ArrayCell xs \<Rightarrow> h)
      else h)"

definition write_index :: "addr \<Rightarrow> nat \<Rightarrow> ref_value \<Rightarrow> store \<Rightarrow> store" where
  "write_index a k v h =
     (if a < length h
      then (case h ! a of
              ArrayCell xs \<Rightarrow> h[a := ArrayCell (xs[k := v])]
            | ObjectCell kvs \<Rightarrow> h)
      else h)"

definition read_index :: "store \<Rightarrow> addr \<Rightarrow> nat \<Rightarrow> ref_value option" where
  "read_index h a k =
     (if a < length h
      then (case h ! a of
              ArrayCell xs \<Rightarrow> if k < length xs then Some (xs ! k) else None
            | ObjectCell kvs \<Rightarrow> None)
      else None)"

text \<open>The loop of \<open>processObject\<close> over \<^verbatim>\<open>Object.entries(obj)\<close>, read before the loop.\<close>

fun object_loop :: "processor \<Rightarrow> addr \<Rightarrow> (string \<times> ref_value) list \<Rightarrow> store \<Rightarrow> rand
    \<Rightarrow> (store \<times> rand) result" where
  "object_loop p result [] h r = Returns (h, r)"
| "object_loop p result ((key, v) # entries) h r =
     (case processString key r of (processedKey, r1) \<Rightarrow>
        bind (p v h r1) (\<lambda>(v', h1, r2).
          object_loop p result entries (write_property result processedKey v' h1) r2))"

text \<open>
  The loop of \<^verbatim>\<open>arr.map\<close>: for \<open>k\<close> from 0 below the length read at the start, the
  element is read from the array when its turn comes, and the result of the callback is
  stored at \<open>k\<close> of the new array. The fourth argument counts the remaining turns.
\<close>

fun map_loop :: "processor \<Rightarrow> addr \<Rightarrow> addr \<Rightarrow> nat \<Rightarrow> nat \<Rightarrow> store \<Rightarrow> rand
    \<Rightarrow> (store \<times> rand) result" where
  "map_loop p arr result k 0 h r = Returns (h, r)"
| "map_loop p arr result k (Suc m) h r =
     (case read_index h arr k of
        None \<Rightarrow> map_loop p arr result (Suc k) m h r
      | Some item \<Rightarrow>
          bind (p item h r) (\<lambda>(v', h1, r1).
            map_loop p arr result (Suc k) m (write_index result k v' h1) r1))"

fun process_store :: "nat \<Rightarrow> processor" where
  "process_store 0 v h r = OutOfFuel"
| "process_store (Suc n) (VStr s) h r =
     (case processString s r of (s', r') \<Rightarrow> Returns (VStr s', h, r'))"
| "process_store (Suc n) (VRef a) h r =
     (if a < length h
      then (case h ! a of
              ObjectCell kvs \<Rightarrow>
                bind (object_loop (\<lambda>v h' r'. process_store n v h' r') (length h) kvs
                        (h @ [ObjectCell []]) r)
                  (\<lambda>(h1, r1). Returns (VRef (length h), h1, r1))
            | ArrayCell xs \<Rightarrow>
                bind (map_loop (\<lambda>v h' r'. process_store n v h' r') a (length h) 0 (length xs)
                        (h @ [ArrayCell (replicate (length xs) VUndefined)]) r)
                  (\<lambda>(h1, r1). Returns (VRef (length h), h1, r1)))
      else Raises Unmodelled)"
| "process_store (Suc n) v h r = Returns (v, h, r)"

section \<open>Predicates and example documents\<close>


definition ref_to :: "string \<Rightarrow> json" where
  "ref_to target = JObj [(''$ref'', JStr target)]"

text \<open>
  A root document with a schema \<open>A\<close> whose required property \<open>self\<close> refers to \<open>A\<close>, and
  two schemas \<open>B\<close> and \<open>C\<close> that are references to each other.
\<close>

definition self_schema :: json where
  "self_schema = JObj [(''type'', JStr ''object''),
     (''properties'', JObj [(''self'', ref_to ''#/A'')]),
     (''required'', JArr [JStr ''self''])]"

definition cyclic_spec :: json where
  "cyclic_spec = JObj [(''A'', self_schema), (''B'', ref_to ''#/C''), (''C'', ref_to ''#/B'')]"

text \<open>
  A schema that \<open>generateFromSchema\<close> dispatches on its type: it is truthy, has no
  \<^verbatim>\<open>$ref\<close>, and none of \<^verbatim>\<open>oneOf\<close>, \<^verbatim>\<open>anyOf\<close>, \<^verbatim>\<open>allOf\<close> passes its guard.
\<close>

definition plain :: "json \<Rightarrow> bool" where
  "plain schema =
     (truthy schema \<and> \<not> truthy (field schema ''$ref'') \<and>
      seq_view (field schema ''oneOf'') = NoElems \<and>
      seq_view (field schema ''anyOf'') = NoElems \<and>
      seq_view (field schema ''allOf'') = NoElems)"

text \<open>The random source whose every draw is 0 and whose every text is empty.\<close>

definition zero_source :: rand where
  "zero_source = Rand (\<lambda>i. 0) (\<lambda>i. [])"

definition five_schema :: json where
  "five_schema = JObj [(''type'', JStr ''integer''), (''minimum'', JNum 5), (''maximum'', JNum 5)]"

definition range_schema :: json where
  "range_schema = JObj [(''type'', JStr ''number''), (''minimum'', JNum 2), (''maximum'', JNum 4)]"



definition string_schema :: json where
  "string_schema = JObj [(''type'', JStr ''string'')]"


text \<open>
  The two members of the claim C1, \<^verbatim>\<open>{properties: {x: ...}, required: ['x']}\<close> and
  \<^verbatim>\<open>{properties: {y: ...}, required: ['y']}\<close> with string properties, and the same two
  with \<^verbatim>\<open>type: 'object'\<close> added.
\<close>

definition member_x :: json where
  "member_x = JObj [(''properties'', JObj [(''x'', string_schema)]), (''required'', JArr [JStr ''x''])]"

definition member_y :: json where
  "member_y = JObj [(''properties'', JObj [(''y'', string_schema)]), (''required'', JArr [JStr ''y''])]"

definition object_x :: json where
  "object_x = JObj [(''type'', JStr ''object''), (''properties'', JObj [(''x'', string_schema)]),
     (''required'', JArr [JStr ''x''])]"

definition object_y :: json where
  "object_y = JObj [(''type'', JStr ''object''), (''properties'', JObj [(''y'', string_schema)]),
     (''required'', JArr [JStr ''y''])]"

definition all_of :: "json list \<Rightarrow> json" where
  "all_of members = JObj [(''allOf'', JArr members)]"

definition null_member :: json where
  "null_member = all_of [JNull]"

definition unknown_type :: json where
  "unknown_type = JObj [(''type'', JStr ''file'')]"

text \<open>The name that \<open>processTemplate\<close> looks up for a template.\<close>

definition name_of :: "string \<Rightarrow> string" where
  "name_of template =
     (case split_on (CHR '':'') template of
        name # params \<Rightarrow> toLowerCase (trim name)
      | [] \<Rightarrow> [])"


text \<open>
  The tree that a value of the store stands for, read to a depth below the first
  argument; \<open>None\<close> when the structure is deeper or an address is not in the store.
\<close>

fun tree_of :: "nat \<Rightarrow> store \<Rightarrow> ref_value \<Rightarrow> json option" where
  "tree_of 0 h v = None"
| "tree_of (Suc n) h VUndefined = Some JUndefined"
| "tree_of (Suc n) h VNull = Some JNull"
| "tree_of (Suc n) h (VBool b) = Some (JBool b)"
| "tree_of (Suc n) h (VNum x) = Some (JNum x)"
| "tree_of (Suc n) h (VStr s) = Some (JStr s)"
| "tree_of (Suc n) h (VRef a) =
     (if a < length h
      then (case h ! a of
              ArrayCell xs \<Rightarrow> map_option JArr (those (map (\<lambda>x. tree_of n h x) xs))
            | ObjectCell kvs \<Rightarrow>
                map_option JObj
                  (those (map (\<lambda>(k, x). map_option (Pair k) (tree_of n h x)) kvs)))
      else None)"

text \<open>
  A store with an object at address 0 that holds a placeholder with an unknown name and
  the array at address 1.
\<close>

definition small_store :: store where
  "small_store = [ObjectCell [(''a'', VStr ''{{nope}}''), (''b'', VRef 1)],
                  ArrayCell [VNum 1, VStr ''x'']]"

text \<open>
  The tree of a value whose cells all lie at or above an address (the second argument).
\<close>

fun tree_from :: "addr \<Rightarrow> nat \<Rightarrow> store \<Rightarrow> ref_value \<Rightarrow> json option" where
  "tree_from lo 0 h v = None"
| "tree_from lo (Suc n) h VUndefined = Some JUndefined"
| "tree_from lo (Suc n) h VNull = Some JNull"
| "tree_from lo (Suc n) h (VBool b) = Some (JBool b)"
| "tree_from lo (Suc n) h (VNum x) = Some (JNum x)"
| "tree_from lo (Suc n) h (VStr s) = Some (JStr s)"
| "tree_from lo (Suc n) h (VRef a) =
     (if lo \<le> a \<and> a < length h
      then (case h ! a of
              ArrayCell xs \<Rightarrow> map_option JArr (those (map (\<lambda>x. tree_from lo n h x) xs))
            | ObjectCell kvs \<Rightarrow>
                map_option JObj
                  (those (map (\<lambda>(k, x). map_option (Pair k) (tree_from lo n h x)) kvs)))
      else None)"

section \<open>Verified properties\<close>

subsection \<open>Running the generator\<close>

lemma bind_simps [simp]:
  "bind (Returns x) f = f x" "bind (Raises e) f = Raises e" "bind OutOfFuel f = OutOfFuel"
  by (simp_all add: bind_def)

lemma bind_Returns:
  "bind m f = Returns y \<Longrightarrow> \<exists>x. m = Returns x \<and> f x = Returns y"
  by (cases m) simp_all

lemma next_nat_zero [simp]: "next_nat zero_source = (0, zero_source)"
  by (simp add: next_nat_def zero_source_def)

lemma generateFromSchema_plain:
  "plain schema \<Longrightarrow>
   generateFromSchema (Suc n) spec schema V r =
     generate_by_type (\<lambda>s v r'. generateFromSchema n spec s v r') schema V r"
  by (simp add: plain_def)

declare generateFromSchema.simps(2) [simp del]

subsection \<open>resolveRef and cyclic references\<close>

lemma resolveRef_restores: "snd (resolveRef spec ref visited) = visited"
proof (induction spec ref visited rule: resolveRef.induct)
  case (1 spec ref visitedRefs)
  show ?case
  proof (cases "ref \<in> visitedRefs \<or> \<not> truthy spec")
    case True
    then show ?thesis
      by (auto simp: resolveRef.simps [of spec ref visitedRefs])
  next
    case False
    then have fresh: "insert ref visitedRefs - {ref} = visitedRefs"
      by blast
    show ?thesis
    proof (cases "ref_parts ref")
      case (Inl e)
      with False fresh show ?thesis
        by (simp add: resolveRef.simps [of spec ref visitedRefs])
    next
      case (Inr parts)
      show ?thesis
      proof (cases "walk spec parts")
        case None
        with False fresh Inr show ?thesis
          by (simp add: resolveRef.simps [of spec ref visitedRefs])
      next
        case (Some current)
        show ?thesis
        proof (cases "truthy current \<and> truthy (field current ''$ref'')")
          case True
          with 1 False Inr Some
          have "snd (resolveRef spec (field current ''$ref'') (insert ref visitedRefs))
                  = insert ref visitedRefs"
            by blast
          with False fresh Inr Some True show ?thesis
            by (simp add: resolveRef.simps [of spec ref visitedRefs] case_prod_beta)
        next
          case no: False
          with False fresh Inr Some show ?thesis
            by (auto simp: resolveRef.simps [of spec ref visitedRefs])
        qed
      qed
    qed
  qed
qed

lemma resolve_A: "resolveRef cyclic_spec (JStr ''#/A'') {} = (self_schema, {})"
  by (simp add: resolveRef.simps cyclic_spec_def self_schema_def ref_to_def has_key_def)

lemma resolve_B: "resolveRef cyclic_spec (JStr ''#/B'') {} = (JNull, {})"
  by (simp add: resolveRef.simps cyclic_spec_def self_schema_def ref_to_def has_key_def)

text \<open>
  C3: for every reference, root document and set of visited references, \<open>resolveRef\<close>
  returns the set as it was before the call, on every path; when the reference is
  already in the set it returns \<^verbatim>\<open>null\<close> and the set as it is; and the reference is
  in the set while a \<^verbatim>\<open>$ref\<close> found at its target is resolved.
\<close>

theorem resolveRef_visiting_restored:
  "snd (resolveRef spec ref visited) = visited \<and>
   (ref \<in> visited \<longrightarrow> resolveRef spec ref visited = (JNull, visited)) \<and>
   (ref \<notin> visited \<and> truthy spec \<and> ref_parts ref = Inr parts \<and>
      walk spec parts = Some current \<and> truthy current \<and> truthy (field current ''$ref'') \<longrightarrow>
    fst (resolveRef spec ref visited) =
      fst (resolveRef spec (field current ''$ref'') (insert ref visited)))"
proof (intro conjI impI)
  show "snd (resolveRef spec ref visited) = visited"
    by (rule resolveRef_restores)
next
  assume "ref \<in> visited"
  then show "resolveRef spec ref visited = (JNull, visited)"
    by (simp add: resolveRef.simps [of spec ref visited])
next
  assume "ref \<notin> visited \<and> truthy spec \<and> ref_parts ref = Inr parts \<and>
      walk spec parts = Some current \<and> truthy current \<and> truthy (field current ''$ref'')"
  then show "fst (resolveRef spec ref visited) =
      fst (resolveRef spec (field current ''$ref'') (insert ref visited))"
    by (simp add: resolveRef.simps [of spec ref visited] case_prod_beta)
qed

theorem resolveRef_visiting_restored_witness:
  "JStr ''#/B'' \<in> {JStr ''#/B''} \<and>
   resolveRef cyclic_spec (JStr ''#/B'') {JStr ''#/B''} = (JNull, {JStr ''#/B''}) \<and>
   walk cyclic_spec [''B''] = Some (ref_to ''#/C'') \<and>
   fst (resolveRef cyclic_spec (JStr ''#/B'') {}) =
     fst (resolveRef cyclic_spec (JStr ''#/C'') {JStr ''#/B''}) \<and>
   snd (resolveRef cyclic_spec (JStr ''#/B'') {}) = {}"
  using resolveRef_visiting_restored [of cyclic_spec "JStr ''#/B''" "{JStr ''#/B''}"]
    resolveRef_visiting_restored [of cyclic_spec "JStr ''#/B''" "{}" "[''B'']" "ref_to ''#/C''"]
  by (simp add: cyclic_spec_def ref_to_def has_key_def)

lemma self_reference_out_of_fuel:
  "generateFromSchema n cyclic_spec (ref_to ''#/A'') {} r = OutOfFuel \<and>
   generateFromSchema n cyclic_spec self_schema {} r = OutOfFuel"
proof (induction n arbitrary: r)
  case 0
  show ?case by simp
next
  case (Suc n)
  have a: "generateFromSchema (Suc n) cyclic_spec (ref_to ''#/A'') {} r = OutOfFuel"
    using Suc [of r]
    by (simp add: generateFromSchema.simps(2) ref_to_def [of "''#/A''"] resolve_A)
      (simp add: self_schema_def)
  have b: "generateFromSchema (Suc n) cyclic_spec self_schema {} r = OutOfFuel"
    using Suc [of r]
    by (simp add: generateFromSchema.simps(2) self_schema_def generate_by_type_def js_or_def
        generateObject_def)
  from a b show ?case by simp
qed

text \<open>
  C2: the claim is that generation ends on every cyclic chain of references, with
  \<^verbatim>\<open>{}\<close> at the repeated reference. For the schema \<open>A\<close> whose required property refers to
  \<open>A\<close>, the run started at \<^verbatim>\<open>{$ref: '#/A'}\<close> with an empty set exceeds every bound on the
  depth of its recursion, whatever the random source: \<open>resolveRef\<close> has removed
  \<^verbatim>\<open>'#/A'\<close> from the set before the resolved schema is generated.
\<close>

theorem generateFromSchema_self_reference_never_returns:
  "generateFromSchema n cyclic_spec (ref_to ''#/A'') {} r = OutOfFuel"
  using self_reference_out_of_fuel by blast

text \<open>
  Where the chain consists of references only (\<open>B\<close> is a reference to \<open>C\<close> and \<open>C\<close> one
  to \<open>B\<close>), the repeated reference is found in the set and the result is \<^verbatim>\<open>{}\<close>.
\<close>

lemma generateFromSchema_reference_cycle:
  "generateFromSchema (Suc n) cyclic_spec (ref_to ''#/B'') {} r = Returns (JObj [], {}, r)"
  by (simp add: generateFromSchema.simps(2) ref_to_def [of "''#/B''"] resolve_B)

subsection \<open>Numbers\<close>

lemma faker_int_bounds:
  assumes "faker_int lo hi r = Returns (i, r')"
  shows "\<lceil>lo\<rceil> \<le> i \<and> i \<le> \<lfloor>hi\<rfloor>"
proof -
  from assms have le: "\<lceil>lo\<rceil> \<le> \<lfloor>hi\<rfloor>"
    by (auto simp: faker_int_def split: if_splits)
  from assms obtain n where i: "i = \<lceil>lo\<rceil> + int (n mod nat (\<lfloor>hi\<rfloor> - \<lceil>lo\<rceil> + 1))"
    by (auto simp: faker_int_def split: if_splits prod.splits)
  have "n mod nat (\<lfloor>hi\<rfloor> - \<lceil>lo\<rceil> + 1) < nat (\<lfloor>hi\<rfloor> - \<lceil>lo\<rceil> + 1)"
    using le by (intro mod_less_divisor) simp
  then have "int (n mod nat (\<lfloor>hi\<rfloor> - \<lceil>lo\<rceil> + 1)) \<le> \<lfloor>hi\<rfloor> - \<lceil>lo\<rceil>"
    using le by linarith
  with i show ?thesis by simp
qed

lemma faker_int_rat_bounds:
  assumes "faker_int lo hi r = Returns (i, r')"
  shows "lo \<le> of_int i \<and> of_int i \<le> hi"
proof -
  from faker_int_bounds [OF assms] have "\<lceil>lo\<rceil> \<le> i" "i \<le> \<lfloor>hi\<rfloor>" by simp_all
  then show ?thesis
    by (simp add: ceiling_le_iff le_floor_iff)
qed

lemma faker_float_bounds:
  assumes "faker_float lo hi r = Returns (x, r')"
  shows "lo \<le> x \<and> x \<le> hi"
proof -
  from assms have le: "lo \<le> hi"
    by (auto simp: faker_float_def split: if_splits)
  from assms obtain n where x: "x = lo + (of_nat (n mod 2 ^ 53) / 2 ^ 53) * (hi - lo)"
    by (auto simp: faker_float_def split: if_splits prod.splits)
  define t :: rat where "t = of_nat (n mod 2 ^ 53) / 2 ^ 53"
  have "n mod 2 ^ 53 < (2 ^ 53 :: nat)" by simp
  then have "(of_nat (n mod 2 ^ 53) :: rat) \<le> of_nat (2 ^ 53)"
    using of_nat_le_iff less_imp_le by blast
  then have t1: "t \<le> 1" by (simp add: t_def)
  have t0: "0 \<le> t" by (simp add: t_def)
  have "0 \<le> t * (hi - lo)" using t0 le by simp
  moreover have "t * (hi - lo) \<le> 1 * (hi - lo)"
    using t1 le by (intro mult_right_mono) simp_all
  ultimately show ?thesis using x by (simp add: t_def)
qed

lemma generateNumber_range:
  assumes ty: "field schema ''type'' = JStr ''number'' \<or> field schema ''type'' = JStr ''integer''"
    and mo: "field schema ''multipleOf'' = JUndefined"
    and lo: "(if field schema ''minimum'' \<noteq> JUndefined then field schema ''minimum''
              else JNum 0) = JNum lo"
    and hi: "(if field schema ''maximum'' \<noteq> JUndefined then field schema ''maximum''
              else JNum 1000) = JNum hi"
    and ret: "generateNumber schema r = Returns (v, r')"
  shows "\<exists>x. v = JNum x \<and> lo \<le> x \<and> x \<le> hi \<and>
           (field schema ''type'' = JStr ''integer'' \<longrightarrow> x \<in> \<int>)"
proof (cases "field schema ''type'' = JStr ''integer''")
  case True
  with ret lo hi mo obtain i where "faker_int lo hi r = Returns (i, r')" "v = JNum (of_int i)"
    by (auto simp: generateNumber_def Let_def snap_def dest!: bind_Returns)
  with faker_int_rat_bounds [of lo hi r i r'] show ?thesis by auto
next
  case False
  with ret lo hi mo obtain x where "faker_float lo hi r = Returns (x, r')" "v = JNum x"
    by (auto simp: generateNumber_def Let_def snap_def dest!: bind_Returns)
  with faker_float_bounds [of lo hi r x r'] False show ?thesis by auto
qed

lemma generateNumber_returns:
  assumes ty: "field schema ''type'' = JStr ''number'' \<or> field schema ''type'' = JStr ''integer''"
    and mo: "field schema ''multipleOf'' = JUndefined"
    and lo: "(if field schema ''minimum'' \<noteq> JUndefined then field schema ''minimum''
              else JNum 0) = JNum lo"
    and hi: "(if field schema ''maximum'' \<noteq> JUndefined then field schema ''maximum''
              else JNum 1000) = JNum hi"
    and ok: "if field schema ''type'' = JStr ''integer'' then \<lceil>lo\<rceil> \<le> \<lfloor>hi\<rfloor> else lo \<le> hi"
  shows "\<exists>v r'. generateNumber schema r = Returns (v, r')"
  using assms
  by (auto simp: generateNumber_def Let_def snap_def faker_int_def faker_float_def
      split: prod.splits if_splits)

text \<open>
  C7: for every schema that is dispatched on its type, with type \<^verbatim>\<open>number\<close> or
  \<^verbatim>\<open>integer\<close>, no \<^verbatim>\<open>multipleOf\<close> and numeric bounds \<open>lo\<close> (\<^verbatim>\<open>minimum\<close>, 0 when absent)
  and \<open>hi\<close> (\<^verbatim>\<open>maximum\<close>, 1000 when absent), a value that \<open>generateFromSchema\<close> returns is
  a number of the closed interval from \<open>lo\<close> to \<open>hi\<close>, and an integer when the type is
  \<^verbatim>\<open>integer\<close>; the run does return when the interval holds a number of the type; and
  for \<^verbatim>\<open>{type: 'integer', minimum: 5, maximum: 5}\<close> it returns 5, whatever the random
  source.
\<close>

theorem generateFromSchema_number_in_range:
  "(plain schema \<and>
    (field schema ''type'' = JStr ''number'' \<or> field schema ''type'' = JStr ''integer'') \<and>
    field schema ''multipleOf'' = JUndefined \<and>
    (if field schema ''minimum'' \<noteq> JUndefined then field schema ''minimum'' else JNum 0)
      = JNum lo \<and>
    (if field schema ''maximum'' \<noteq> JUndefined then field schema ''maximum'' else JNum 1000)
      = JNum hi \<and>
    generateFromSchema (Suc n) spec schema visited r = Returns (v, visited', r')
    \<longrightarrow> (\<exists>x. v = JNum x \<and> lo \<le> x \<and> x \<le> hi \<and>
            (field schema ''type'' = JStr ''integer'' \<longrightarrow> x \<in> \<int>))) \<and>
   (plain schema \<and>
    (field schema ''type'' = JStr ''number'' \<or> field schema ''type'' = JStr ''integer'') \<and>
    field schema ''multipleOf'' = JUndefined \<and>
    (if field schema ''minimum'' \<noteq> JUndefined then field schema ''minimum'' else JNum 0)
      = JNum lo \<and>
    (if field schema ''maximum'' \<noteq> JUndefined then field schema ''maximum'' else JNum 1000)
      = JNum hi \<and>
    (if field schema ''type'' = JStr ''integer'' then \<lceil>lo\<rceil> \<le> \<lfloor>hi\<rfloor> else lo \<le> hi)
    \<longrightarrow> (\<exists>x r'. generateFromSchema (Suc n) spec schema visited r = Returns (x, visited, r'))) \<and>
   (\<exists>r'. generateFromSchema (Suc n) spec five_schema visited r = Returns (JNum 5, visited, r'))"
proof (intro conjI impI)
  assume a: "plain schema \<and>
    (field schema ''type'' = JStr ''number'' \<or> field schema ''type'' = JStr ''integer'') \<and>
    field schema ''multipleOf'' = JUndefined \<and>
    (if field schema ''minimum'' \<noteq> JUndefined then field schema ''minimum'' else JNum 0)
      = JNum lo \<and>
    (if field schema ''maximum'' \<noteq> JUndefined then field schema ''maximum'' else JNum 1000)
      = JNum hi \<and>
    generateFromSchema (Suc n) spec schema visited r = Returns (v, visited', r')"
  then have "generate_by_type (\<lambda>s v r'. generateFromSchema n spec s v r') schema visited r
      = Returns (v, visited', r')"
    using generateFromSchema_plain [of schema n spec visited r] by auto
  with a have "generateNumber schema r = Returns (v, r')"
    by (auto simp: generate_by_type_def js_or_def Let_def dest!: bind_Returns)
  with a show "\<exists>x. v = JNum x \<and> lo \<le> x \<and> x \<le> hi \<and>
            (field schema ''type'' = JStr ''integer'' \<longrightarrow> x \<in> \<int>)"
    using generateNumber_range [of schema lo hi r v r'] by blast
next
  assume a: "plain schema \<and>
    (field schema ''type'' = JStr ''number'' \<or> field schema ''type'' = JStr ''integer'') \<and>
    field schema ''multipleOf'' = JUndefined \<and>
    (if field schema ''minimum'' \<noteq> JUndefined then field schema ''minimum'' else JNum 0)
      = JNum lo \<and>
    (if field schema ''maximum'' \<noteq> JUndefined then field schema ''maximum'' else JNum 1000)
      = JNum hi \<and>
    (if field schema ''type'' = JStr ''integer'' then \<lceil>lo\<rceil> \<le> \<lfloor>hi\<rfloor> else lo \<le> hi)"
  then obtain x r' where "generateNumber schema r = Returns (x, r')"
    using generateNumber_returns [of schema lo hi r] by blast
  with a have "generate_by_type (\<lambda>s v r'. generateFromSchema n spec s v r') schema visited r
      = Returns (x, visited, r')"
    by (auto simp: generate_by_type_def js_or_def Let_def)
  with a show "\<exists>x r'. generateFromSchema (Suc n) spec schema visited r = Returns (x, visited, r')"
    using generateFromSchema_plain [of schema n spec visited r] by auto
next
  show "\<exists>r'. generateFromSchema (Suc n) spec five_schema visited r = Returns (JNum 5, visited, r')"
    by (simp add: generateFromSchema.simps(2) five_schema_def generate_by_type_def js_or_def
        generateNumber_def faker_int_def snap_def split: prod.splits)
qed

lemma range_schema_run:
  "generateFromSchema (Suc 0) JNull range_schema {} zero_source
     = Returns (JNum 2, {}, zero_source)"
  by (simp add: generateFromSchema.simps(2) range_schema_def generate_by_type_def js_or_def
        generateNumber_def faker_float_def snap_def)

theorem generateFromSchema_number_in_range_witness:
  "plain range_schema \<and>
   generateFromSchema (Suc 0) JNull range_schema {} zero_source
     = Returns (JNum 2, {}, zero_source) \<and>
   (\<exists>x. JNum 2 = JNum x \<and> 2 \<le> x \<and> x \<le> 4)"
  using generateFromSchema_number_in_range
      [of range_schema 2 4 0 JNull "{}" zero_source "JNum 2" "{}" zero_source]
    range_schema_run
  by (simp add: range_schema_def plain_def)

subsection \<open>Arrays\<close>



lemma js_or_truthy [simp]: "truthy a \<Longrightarrow> js_or a b = a"
  by (simp add: js_or_def)

lemma js_or_falsy [simp]: "\<not> truthy a \<Longrightarrow> js_or a b = b"
  by (simp add: js_or_def)

lemma faker_boolean_zero [simp]: "faker_boolean zero_source = (False, zero_source)"
  by (simp add: faker_boolean_def)







subsection \<open>Objects\<close>

lemma map_fst_obj_set:
  "map fst (obj_set k v obj) = (if k \<in> set (map fst obj) then map fst obj else map fst obj @ [k])"
  by (induction k v obj rule: obj_set.induct) auto

lemma keys_obj_set: "set (map fst (obj_set k v obj)) = insert k (set (map fst obj))"
  by (simp only: map_fst_obj_set) auto

lemma has_key_obj_set [simp]: "has_key k (obj_set k' v obj) = (k = k' \<or> has_key k obj)"
  unfolding has_key_def keys_obj_set by simp

lemma has_key_Cons [simp]: "has_key k ((k', v) # kvs) = (k = k' \<or> has_key k kvs)"
  by (auto simp: has_key_def)

lemma has_key_Nil [simp]: "\<not> has_key k []"
  by (simp add: has_key_def)




lemma string_item:
  "\<exists>s r'. generateFromSchema (Suc n) spec string_schema V r = Returns (JStr s, V, r')"
  by (simp add: generateFromSchema.simps(2) string_schema_def generate_by_type_def
      generateString_def string_formats_def faker_int_def split: prod.splits)





subsection \<open>allOf\<close>

lemma merge_members: "mergeSchemas [member_x, member_y] = Returns member_y"
  by (simp add: member_x_def member_y_def merge_properties_def merge_required_def obj_assign_def)

lemma merge_objects: "mergeSchemas [object_x, object_y] = Returns object_y"
  by (simp add: object_x_def object_y_def merge_properties_def merge_required_def obj_assign_def)

lemma member_y_run:
  "\<exists>s r'. generateFromSchema (Suc n) spec member_y V r = Returns (JStr s, V, r')"
  by (simp add: generateFromSchema.simps(2) member_y_def generate_by_type_def inferType_def
      generateString_def string_formats_def faker_int_def split: prod.splits)

lemma object_y_run:
  "\<exists>s r'. generateFromSchema (Suc (Suc n)) spec object_y V r
     = Returns (JObj [(''y'', JStr s)], V, r')"
proof -
  obtain s r' where "generateFromSchema (Suc n) spec string_schema V r = Returns (JStr s, V, r')"
    using string_item by blast
  then have "generateFromSchema (Suc (Suc n)) spec object_y V r
     = Returns (JObj [(''y'', JStr s)], V, r')"
    by (simp add: generateFromSchema.simps(2) [of "Suc n"] object_y_def generate_by_type_def
        generateObject_def)
  then show ?thesis by blast
qed

text \<open>
  C1: the claim is that \<^verbatim>\<open>allOf\<close> unions the \<^verbatim>\<open>properties\<close> and \<^verbatim>\<open>required\<close> of its
  members, so that the result for the two members above has both \<open>x\<close> and \<open>y\<close>. In
  \<open>mergeSchemas\<close> the spread \<^verbatim>\<open>merged = { ...merged, ...currentSchema }\<close> replaces the
  union just built by the later member's own \<^verbatim>\<open>properties\<close> and \<^verbatim>\<open>required\<close>, and the
  two statements after it merge the later member with itself. The merged schema is the
  later member; the result is a string for the members of the claim (they have no
  \<^verbatim>\<open>type\<close>, and the type defaults to \<^verbatim>\<open>string\<close>) and an object with the one key \<open>y\<close>
  for the members with \<^verbatim>\<open>type: 'object'\<close>, whatever the random source.
\<close>

theorem allOf_merge_keeps_last_member_only:
  "mergeSchemas [member_x, member_y] = Returns member_y \<and>
   mergeSchemas [object_x, object_y] = Returns object_y \<and>
   (\<exists>s r'. generateFromSchema (Suc (Suc n)) spec (all_of [member_x, member_y]) visited r
      = Returns (JStr s, visited, r')) \<and>
   (\<exists>s r'. generateFromSchema (Suc (Suc (Suc n))) spec (all_of [object_x, object_y]) visited r
      = Returns (JObj [(''y'', JStr s)], visited, r'))"
proof (intro conjI)
  show "mergeSchemas [member_x, member_y] = Returns member_y"
    by (rule merge_members)
  show "mergeSchemas [object_x, object_y] = Returns object_y"
    by (rule merge_objects)
  have mx: "\<not> nullish member_x" "field member_x ''$ref'' = JUndefined"
    and my: "\<not> nullish member_y" "field member_y ''$ref'' = JUndefined"
    by (simp_all add: member_x_def member_y_def)
  have "generateFromSchema (Suc (Suc n)) spec (all_of [member_x, member_y]) visited r
      = generateFromSchema (Suc n) spec member_y visited r"
    by (simp add: generateFromSchema.simps(2) [of "Suc n"] all_of_def mx my
        merge_members del: mergeSchemas.simps)
  then show "\<exists>s r'. generateFromSchema (Suc (Suc n)) spec (all_of [member_x, member_y]) visited r
      = Returns (JStr s, visited, r')"
    using member_y_run [of n spec visited r] by simp
  have ox: "\<not> nullish object_x" "field object_x ''$ref'' = JUndefined"
    and oy: "\<not> nullish object_y" "field object_y ''$ref'' = JUndefined"
    by (simp_all add: object_x_def object_y_def)
  have "generateFromSchema (Suc (Suc (Suc n))) spec (all_of [object_x, object_y]) visited r
      = generateFromSchema (Suc (Suc n)) spec object_y visited r"
    by (simp add: generateFromSchema.simps(2) [of "Suc (Suc n)"] all_of_def ox oy
        merge_objects del: mergeSchemas.simps)
  then show "\<exists>s r'. generateFromSchema (Suc (Suc (Suc n))) spec (all_of [object_x, object_y]) visited r
      = Returns (JObj [(''y'', JStr s)], visited, r')"
    using object_y_run [of n spec visited r] by simp
qed

subsection \<open>Failing soft\<close>

text \<open>
  The claim C4 says that \<open>generateFromSchema\<close> never raises. The callback of
  \<^verbatim>\<open>schema.allOf.map\<close> reads \<^verbatim>\<open>s.$ref\<close> of every member, and for \<^verbatim>\<open>{allOf: [null]}\<close> that
  read raises a TypeError, which the generator does not catch.
\<close>

theorem generateFromSchema_null_member_counterexample:
  "generateFromSchema (Suc 0) JNull null_member {} zero_source = Raises TypeError"
  by (simp add: generateFromSchema.simps(2) null_member_def all_of_def)

text \<open>
  C4, as amended: \<open>generateFromSchema\<close> returns \<^verbatim>\<open>null\<close> for a schema that is absent or
  otherwise falsy, \<^verbatim>\<open>null\<close> for a schema dispatched on its type whose type is none of
  the six names with a generator, and \<^verbatim>\<open>{}\<close> for a schema with a \<^verbatim>\<open>$ref\<close> that
  \<open>resolveRef\<close> does not resolve; none of the three raises, and the set of visited
  references is as before.
\<close>

theorem generateFromSchema_soft_failures:
  "(\<not> truthy schema \<longrightarrow>
      generateFromSchema (Suc n) spec schema visited r = Returns (JNull, visited, r)) \<and>
   (plain schema \<and> truthy (field schema ''type'') \<and>
    field schema ''type'' \<notin> set (map JStr
       [''string'', ''number'', ''integer'', ''boolean'', ''array'', ''object'']) \<longrightarrow>
      generateFromSchema (Suc n) spec schema visited r = Returns (JNull, visited, r)) \<and>
   (truthy schema \<and> truthy (field schema ''$ref'') \<and>
    \<not> truthy (fst (resolveRef spec (field schema ''$ref'') visited)) \<longrightarrow>
      generateFromSchema (Suc n) spec schema visited r = Returns (JObj [], visited, r))"
proof (intro conjI impI)
  assume "\<not> truthy schema"
  then show "generateFromSchema (Suc n) spec schema visited r = Returns (JNull, visited, r)"
    by (simp add: generateFromSchema.simps(2))
next
  assume a: "plain schema \<and> truthy (field schema ''type'') \<and>
    field schema ''type'' \<notin> set (map JStr
       [''string'', ''number'', ''integer'', ''boolean'', ''array'', ''object''])"
  then have "generateFromSchema (Suc n) spec schema visited r =
     generate_by_type (\<lambda>s v r'. generateFromSchema n spec s v r') schema visited r"
    using generateFromSchema_plain by blast
  with a show "generateFromSchema (Suc n) spec schema visited r = Returns (JNull, visited, r)"
    by (simp add: generate_by_type_def)
next
  assume a: "truthy schema \<and> truthy (field schema ''$ref'') \<and>
    \<not> truthy (fst (resolveRef spec (field schema ''$ref'') visited))"
  have "snd (resolveRef spec (field schema ''$ref'') visited) = visited"
    by (rule resolveRef_restores)
  with a show "generateFromSchema (Suc n) spec schema visited r = Returns (JObj [], visited, r)"
    by (simp add: generateFromSchema.simps(2) case_prod_beta)
qed

theorem generateFromSchema_soft_failures_witness:
  "\<not> truthy JNull \<and>
   generateFromSchema (Suc 0) cyclic_spec JNull {} zero_source = Returns (JNull, {}, zero_source) \<and>
   plain unknown_type \<and>
   generateFromSchema (Suc 0) cyclic_spec unknown_type {} zero_source
     = Returns (JNull, {}, zero_source) \<and>
   \<not> truthy (fst (resolveRef cyclic_spec (field (ref_to ''#/B'') ''$ref'') {})) \<and>
   generateFromSchema (Suc 0) cyclic_spec (ref_to ''#/B'') {} zero_source
     = Returns (JObj [], {}, zero_source)"
  using generateFromSchema_soft_failures [of JNull 0 cyclic_spec "{}" zero_source]
    generateFromSchema_soft_failures [of unknown_type 0 cyclic_spec "{}" zero_source]
    generateFromSchema_soft_failures [of "ref_to ''#/B''" 0 cyclic_spec "{}" zero_source]
    resolve_B
  by (simp add: unknown_type_def plain_def ref_to_def [of "''#/B''"])

subsection \<open>Placeholders with an unknown name\<close>

lemma split_on_not_Nil: "split_on c s \<noteq> []"
  by (induction s) (auto split: list.splits)

lemma processTemplate_unknown:
  "name_of template \<notin> set template_names \<Longrightarrow>
   processTemplate template r = (''{{'' @ template @ ''}}'', r)"
  by (auto simp: processTemplate_def name_of_def Let_def split: list.splits)

lemma match_placeholder_here:
  assumes "body \<noteq> []" "CHR ''}'' \<notin> set body"
  shows "match_placeholder (''{{'' @ body @ ''}}'' @ post) = Some (body, post)"
proof -
  have t: "takeWhile (\<lambda>c. c \<noteq> CHR ''}'') (body @ ''}}'' @ post) = body"
    using assms(2) by (induction body) auto
  have d: "dropWhile (\<lambda>c. c \<noteq> CHR ''}'') (body @ ''}}'' @ post) = ''}}'' @ post"
    using assms(2) by (induction body) auto
  show ?thesis
    using assms(1) t d by (simp add: Let_def)
qed



lemma processString_unknown_here:
  assumes "body \<noteq> []" "CHR ''}'' \<notin> set body" "name_of (trim body) \<notin> set template_names"
  shows "processString (''{{'' @ body @ ''}}'' @ post) r =
     (''{{'' @ trim body @ ''}}'' @ fst (processString post r), snd (processString post r))"
proof -
  have "processString (CHR ''{'' # CHR ''{'' # body @ ''}}'' @ post) r =
     (''{{'' @ trim body @ ''}}'' @ fst (processString post r), snd (processString post r))"
    using match_placeholder_here [OF assms(1,2), of post] processTemplate_unknown [OF assms(3), of r]
    by (simp add: processString.simps(2) case_prod_beta del: match_placeholder.simps)
  then show ?thesis by simp
qed





subsection \<open>The shape of processed values\<close>







subsection \<open>The argument of process is not changed\<close>

lemma write_property_length [simp]: "length (write_property a k v h) = length h"
  by (simp add: write_property_def split: cell.splits)

lemma write_index_length [simp]: "length (write_index a k v h) = length h"
  by (simp add: write_index_def split: cell.splits)

lemma write_property_other: "b \<noteq> a \<Longrightarrow> write_property a k v h ! b = h ! b"
  by (simp add: write_property_def split: cell.splits)

lemma write_index_other: "b \<noteq> a \<Longrightarrow> write_index a k v h ! b = h ! b"
  by (simp add: write_index_def split: cell.splits)

lemma prefix_nth:
  assumes "length h \<le> length h1" "take (length h) h1 = h" "b < length h"
  shows "h1 ! b = h ! b"
proof -
  have "take (length h) h1 ! b = h1 ! b" using assms(3) by simp
  with assms(2) show ?thesis by simp
qed

lemma object_loop_frame:
  assumes P: "\<And>v h r v' h' r'. p v h r = Returns (v', h', r') \<Longrightarrow>
                length h \<le> length h' \<and> take (length h) h' = h"
  shows "object_loop p result entries h r = Returns (h', r') \<Longrightarrow>
         length h \<le> length h' \<and> (\<forall>b < length h. b \<noteq> result \<longrightarrow> h' ! b = h ! b)"
proof (induction entries arbitrary: h r)
  case Nil
  then show ?case by simp
next
  case (Cons e entries)
  obtain key v where e: "e = (key, v)" by (cases e)
  obtain pk r1 where pk: "processString key r = (pk, r1)" by (cases "processString key r")
  from Cons.prems e pk obtain v' h1 r2 where
    call: "p v h r1 = Returns (v', h1, r2)" and
    rest: "object_loop p result entries (write_property result pk v' h1) r2 = Returns (h', r')"
    by (auto dest!: bind_Returns)
  from P [OF call] have ext: "length h \<le> length h1" "take (length h) h1 = h" by simp_all
  from Cons.IH [OF rest] have ih: "length h1 \<le> length h'"
    "\<forall>b < length h1. b \<noteq> result \<longrightarrow> h' ! b = write_property result pk v' h1 ! b"
    by simp_all
  have "h' ! b = h ! b" if "b < length h" "b \<noteq> result" for b
  proof -
    from that ext have "b < length h1" by simp
    with ih that have "h' ! b = write_property result pk v' h1 ! b" by simp
    also have "\<dots> = h1 ! b" using that by (simp add: write_property_other)
    also have "\<dots> = h ! b" using ext that by (simp add: prefix_nth)
    finally show ?thesis .
  qed
  with ext ih show ?case by simp
qed

lemma map_loop_frame:
  assumes P: "\<And>v h r v' h' r'. p v h r = Returns (v', h', r') \<Longrightarrow>
                length h \<le> length h' \<and> take (length h) h' = h"
  shows "map_loop p arr result k m h r = Returns (h', r') \<Longrightarrow>
         length h \<le> length h' \<and> (\<forall>b < length h. b \<noteq> result \<longrightarrow> h' ! b = h ! b)"
proof (induction m arbitrary: k h r)
  case 0
  then show ?case by simp
next
  case (Suc m)
  show ?case
  proof (cases "read_index h arr k")
    case None
    with Suc.prems have "map_loop p arr result (Suc k) m h r = Returns (h', r')" by simp
    from Suc.IH [OF this] show ?thesis .
  next
    case (Some item)
    with Suc.prems obtain v' h1 r1 where
      call: "p item h r = Returns (v', h1, r1)" and
      rest: "map_loop p arr result (Suc k) m (write_index result k v' h1) r1 = Returns (h', r')"
      by (auto dest!: bind_Returns)
    from P [OF call] have ext: "length h \<le> length h1" "take (length h) h1 = h" by simp_all
    from Suc.IH [OF rest] have ih: "length h1 \<le> length h'"
      "\<forall>b < length h1. b \<noteq> result \<longrightarrow> h' ! b = write_index result k v' h1 ! b"
      by simp_all
    have "h' ! b = h ! b" if "b < length h" "b \<noteq> result" for b
    proof -
      from that ext have "b < length h1" by simp
      with ih that have "h' ! b = write_index result k v' h1 ! b" by simp
      also have "\<dots> = h1 ! b" using that by (simp add: write_index_other)
      also have "\<dots> = h ! b" using ext that by (simp add: prefix_nth)
      finally show ?thesis .
    qed
    with ext ih show ?thesis by simp
  qed
qed

lemma grown_store:
  assumes "length (h @ [c]) \<le> length h1"
    "\<forall>b < length (h @ [c]). b \<noteq> length h \<longrightarrow> h1 ! b = (h @ [c]) ! b"
  shows "length h \<le> length h1 \<and> take (length h) h1 = h \<and> length h < length h1"
proof -
  from assms(1) have len: "length h < length h1" by simp
  have "take (length h) h1 ! b = h ! b" if "b < length h" for b
    using that assms(2) by (simp add: nth_append)
  then have "take (length h) h1 = h"
    using len by (intro nth_equalityI) simp_all
  with len show ?thesis by simp
qed

lemma process_store_frame:
  "process_store n v h r = Returns (v', h', r') \<Longrightarrow>
   length h \<le> length h' \<and> take (length h) h' = h \<and>
   (\<forall>a. v = VRef a \<longrightarrow> (\<exists>a'. v' = VRef a' \<and> length h \<le> a' \<and> a' < length h'))"
proof (induction n arbitrary: v h r v' h' r')
  case 0
  then show ?case by simp
next
  case (Suc n)
  have P: "\<And>v h r v' h' r'. process_store n v h r = Returns (v', h', r') \<Longrightarrow>
                length h \<le> length h' \<and> take (length h) h' = h"
    using Suc.IH by blast
  show ?case
  proof (cases v)
    case (VStr s)
    with Suc.prems show ?thesis by (auto split: prod.splits)
  next
    case (VRef a)
    with Suc.prems have a: "a < length h" by (auto split: if_splits)
    show ?thesis
    proof (cases "h ! a")
      case (ObjectCell kvs)
      with Suc.prems VRef a obtain r1 where
        loop: "object_loop (\<lambda>v h' r'. process_store n v h' r') (length h) kvs
                 (h @ [ObjectCell []]) r = Returns (h', r1)" and v': "v' = VRef (length h)"
        by (auto dest!: bind_Returns)
      have "length (h @ [ObjectCell []]) \<le> length h' \<and>
          (\<forall>b < length (h @ [ObjectCell []]). b \<noteq> length h \<longrightarrow>
             h' ! b = (h @ [ObjectCell []]) ! b)"
        by (rule object_loop_frame [where p = "\<lambda>v h' r'. process_store n v h' r'", OF _ loop])
          (rule P)
      then have "length h \<le> length h' \<and> take (length h) h' = h \<and> length h < length h'"
        using grown_store [of h "ObjectCell []" h'] by blast
      with v' VRef show ?thesis by simp
    next
      case (ArrayCell xs)
      with Suc.prems VRef a obtain r1 where
        loop: "map_loop (\<lambda>v h' r'. process_store n v h' r') a (length h) 0 (length xs)
                 (h @ [ArrayCell (replicate (length xs) VUndefined)]) r = Returns (h', r1)"
          and v': "v' = VRef (length h)"
        by (auto dest!: bind_Returns)
      let ?c = "ArrayCell (replicate (length xs) VUndefined)"
      have "length (h @ [?c]) \<le> length h' \<and>
          (\<forall>b < length (h @ [?c]). b \<noteq> length h \<longrightarrow> h' ! b = (h @ [?c]) ! b)"
        by (rule map_loop_frame [where p = "\<lambda>v h' r'. process_store n v h' r'", OF _ loop])
          (rule P)
      then have "length h \<le> length h' \<and> take (length h) h' = h \<and> length h < length h'"
        using grown_store [of h ?c h'] by blast
      with v' VRef show ?thesis by simp
    qed
  qed (use Suc.prems in auto)
qed

lemma those_map_mono:
  assumes "those (map f xs) = Some ts" "\<And>x t. x \<in> set xs \<Longrightarrow> f x = Some t \<Longrightarrow> g x = Some t"
  shows "those (map g xs) = Some ts"
  using assms
proof (induction xs arbitrary: ts)
  case Nil
  then show ?case by simp
next
  case (Cons x xs)
  from Cons.prems(1) obtain t ts' where
    t: "f x = Some t" and ts': "those (map f xs) = Some ts'" and eq: "ts = t # ts'"
    by (auto split: option.splits)
  from Cons.prems(2) [of x t] t have "g x = Some t" by simp
  moreover from Cons.IH [OF ts'] Cons.prems(2) have "those (map g xs) = Some ts'" by simp
  ultimately show ?case using eq by simp
qed

lemma tree_of_frame:
  assumes ext: "length h \<le> length h'" "take (length h) h' = h"
  shows "tree_of n h v = Some t \<Longrightarrow> tree_of n h' v = Some t"
proof (induction n arbitrary: v t)
  case 0
  then show ?case by simp
next
  case (Suc n)
  show ?case
  proof (cases v)
    case (VRef a)
    with Suc.prems have a: "a < length h" by (auto split: if_splits)
    then have same: "h' ! a = h ! a" using ext by (simp add: prefix_nth)
    from a ext have a': "a < length h'" by simp
    show ?thesis
    proof (cases "h ! a")
      case (ArrayCell xs)
      with Suc.prems VRef a obtain ts where
        ts: "those (map (\<lambda>x. tree_of n h x) xs) = Some ts" and t: "t = JArr ts"
        by auto
      have "those (map (\<lambda>x. tree_of n h' x) xs) = Some ts"
        by (rule those_map_mono [OF ts]) (rule Suc.IH)
      with VRef a' same ArrayCell t show ?thesis by simp
    next
      case (ObjectCell kvs)
      with Suc.prems VRef a obtain ts where
        ts: "those (map (\<lambda>(k, x). map_option (Pair k) (tree_of n h x)) kvs) = Some ts"
        and t: "t = JObj ts"
        by auto
      have "those (map (\<lambda>(k, x). map_option (Pair k) (tree_of n h' x)) kvs) = Some ts"
        by (rule those_map_mono [OF ts]) (auto dest: Suc.IH)
      with VRef a' same ObjectCell t show ?thesis by simp
    qed
  qed (use Suc.prems in auto)
qed

lemma nope_unknown: "name_of (trim ''nope'') \<notin> set template_names"
  by (simp add: name_of_def trim_def is_space_def toLowerCase_def lower_char_def template_names_def)

lemma nope_string: "processString ''{{nope}}'' r = (''{{nope}}'', r)"
proof -
  have "processString (''{{'' @ ''nope'' @ ''}}'' @ []) r
      = (''{{'' @ trim ''nope'' @ ''}}'' @ fst (processString [] r), snd (processString [] r))"
    by (rule processString_unknown_here) (use nope_unknown in simp_all)
  then show ?thesis by (simp add: trim_def is_space_def)
qed

lemma plain_strings:
  "processString ''a'' r = (''a'', r)" "processString ''b'' r = (''b'', r)"
  "processString ''x'' r = (''x'', r)"
  by (simp_all add: processString.simps(2))

lemma small_store_run:
  "process_store (Suc (Suc (Suc 0))) (VRef 0) small_store zero_source =
     Returns (VRef 2,
       small_store @ [ObjectCell [(''a'', VStr ''{{nope}}''), (''b'', VRef 3)],
                      ArrayCell [VNum 1, VStr ''x'']],
       zero_source)"
  by (simp add: small_store_def nope_string plain_strings write_property_def write_index_def
      read_index_def)

lemma tree_from_change:
  assumes same: "\<And>a. lo' \<le> a \<Longrightarrow> a < length h \<Longrightarrow> a < length h' \<and> h' ! a = h ! a"
    and le: "lo' \<le> lo"
  shows "tree_from lo n h v = Some t \<Longrightarrow> tree_from lo' n h' v = Some t"
proof (induction n arbitrary: v t)
  case 0
  then show ?case by simp
next
  case (Suc n)
  show ?case
  proof (cases v)
    case (VRef a)
    with Suc.prems have a: "lo \<le> a" "a < length h" by (auto split: if_splits)
    with le have a': "lo' \<le> a" by simp
    from same [OF a' a(2)] have s: "a < length h'" "h' ! a = h ! a" by simp_all
    show ?thesis
    proof (cases "h ! a")
      case (ArrayCell xs)
      with Suc.prems VRef a obtain ts where
        ts: "those (map (\<lambda>x. tree_from lo n h x) xs) = Some ts" and t: "t = JArr ts"
        by auto
      have "those (map (\<lambda>x. tree_from lo' n h' x) xs) = Some ts"
        by (rule those_map_mono [OF ts]) (rule Suc.IH)
      with VRef a' s ArrayCell t show ?thesis by simp
    next
      case (ObjectCell kvs)
      with Suc.prems VRef a obtain ts where
        ts: "those (map (\<lambda>(k, x). map_option (Pair k) (tree_from lo n h x)) kvs) = Some ts"
        and t: "t = JObj ts"
        by auto
      have "those (map (\<lambda>(k, x). map_option (Pair k) (tree_from lo' n h' x)) kvs) = Some ts"
        by (rule those_map_mono [OF ts]) (auto dest: Suc.IH)
      with VRef a' s ObjectCell t show ?thesis by simp
    qed
  qed (use Suc.prems in auto)
qed

lemma tree_from_tree_of: "tree_from lo n h v = Some t \<Longrightarrow> tree_of n h v = Some t"
proof (induction n arbitrary: v t)
  case 0
  then show ?case by simp
next
  case (Suc n)
  show ?case
  proof (cases v)
    case (VRef a)
    with Suc.prems have a: "lo \<le> a" "a < length h" by (auto split: if_splits)
    show ?thesis
    proof (cases "h ! a")
      case (ArrayCell xs)
      with Suc.prems VRef a obtain ts where
        ts: "those (map (\<lambda>x. tree_from lo n h x) xs) = Some ts" and t: "t = JArr ts"
        by auto
      have "those (map (\<lambda>x. tree_of n h x) xs) = Some ts"
        by (rule those_map_mono [OF ts]) (rule Suc.IH)
      with VRef a ArrayCell t show ?thesis by simp
    next
      case (ObjectCell kvs)
      with Suc.prems VRef a obtain ts where
        ts: "those (map (\<lambda>(k, x). map_option (Pair k) (tree_from lo n h x)) kvs) = Some ts"
        and t: "t = JObj ts"
        by auto
      have "those (map (\<lambda>(k, x). map_option (Pair k) (tree_of n h x)) kvs) = Some ts"
        by (rule those_map_mono [OF ts]) (auto dest: Suc.IH)
      with VRef a ObjectCell t show ?thesis by simp
    qed
  qed (use Suc.prems in auto)
qed

lemma those_append:
  "those xs = Some as \<Longrightarrow> those ys = Some bs \<Longrightarrow> those (xs @ ys) = Some (as @ bs)"
  by (induction xs arbitrary: as) (auto split: option.splits)

lemma those_obj_set:
  assumes "those (map (\<lambda>(k, x). map_option (Pair k) (f x)) kvs) = Some acc" "f v = Some y"
  shows "those (map (\<lambda>(k, x). map_option (Pair k) (f x)) (obj_set key v kvs))
           = Some (obj_set key y acc)"
  using assms(1)
proof (induction kvs arbitrary: acc)
  case Nil
  with assms(2) show ?case by simp
next
  case (Cons e kvs)
  obtain k x where e: "e = (k, x)" by (cases e)
  from Cons.prems e obtain y0 acc' where
    y0: "f x = Some y0" and acc': "those (map (\<lambda>(k, x). map_option (Pair k) (f x)) kvs) = Some acc'"
    and eq: "acc = (k, y0) # acc'"
    by (auto split: option.splits)
  show ?case
  proof (cases "k = key")
    case True
    with e eq y0 acc' assms(2) show ?thesis by simp
  next
    case False
    with e eq y0 Cons.IH [OF acc'] show ?thesis by simp
  qed
qed

lemma write_property_at:
  "a < length h \<Longrightarrow> h ! a = ObjectCell kvs \<Longrightarrow>
   write_property a key v h = h[a := ObjectCell (obj_set key v kvs)]"
  by (simp add: write_property_def)

lemma write_index_at:
  "a < length h \<Longrightarrow> h ! a = ArrayCell xs \<Longrightarrow>
   write_index a k v h = h[a := ArrayCell (xs[k := v])]"
  by (simp add: write_index_def)

lemma object_loop_refines:
  assumes frame: "\<And>v h r v' h' r'. p v h r = Returns (v', h', r') \<Longrightarrow>
                    length h \<le> length h' \<and> take (length h) h' = h"
    and ref: "\<And>v h r t. tree_of n h v = Some t \<Longrightarrow>
                \<exists>v' h'. p v h r = Returns (v', h', snd (process t r)) \<and>
                  tree_from (length h) n h' v' = Some (fst (process t r))"
  shows "those (map (\<lambda>(k, x). map_option (Pair k) (tree_of n h0 x)) entries) = Some tentries \<Longrightarrow>
    length h0 = result \<Longrightarrow> result < length h \<Longrightarrow> take result h = h0 \<Longrightarrow>
    h ! result = ObjectCell kvs \<Longrightarrow>
    those (map (\<lambda>(k, x). map_option (Pair k) (tree_from (Suc result) n h x)) kvs) = Some acc \<Longrightarrow>
    \<exists>h' kvs'. object_loop p result entries h r
                 = Returns (h', snd (processObject tentries acc r)) \<and>
       length h \<le> length h' \<and> h' ! result = ObjectCell kvs' \<and>
       those (map (\<lambda>(k, x). map_option (Pair k) (tree_from (Suc result) n h' x)) kvs')
         = Some (fst (processObject tentries acc r))"
proof (induction entries arbitrary: tentries h r kvs acc)
  case Nil
  then show ?case by auto
next
  case (Cons e entries)
  obtain key x where e: "e = (key, x)" by (cases e)
  from Cons.prems(1) e obtain tx trest where
    tx: "tree_of n h0 x = Some tx" and
    trest: "those (map (\<lambda>(k, x). map_option (Pair k) (tree_of n h0 x)) entries) = Some trest" and
    teq: "tentries = (key, tx) # trest"
    by (auto split: option.splits)
  obtain pk r1 where pk: "processString key r = (pk, r1)" by (cases "processString key r")
  have ext0: "length h0 \<le> length h" "take (length h0) h = h0"
    using Cons.prems(2,3,4) by simp_all
  have "tree_of n h x = Some tx"
    using tree_of_frame [OF ext0 tx] .
  from ref [OF this, of r1] obtain v' h1 where
    call: "p x h r1 = Returns (v', h1, snd (process tx r1))" and
    tv: "tree_from (length h) n h1 v' = Some (fst (process tx r1))"
    by blast
  from frame [OF call] have ext: "length h \<le> length h1" "take (length h) h1 = h" by simp_all
  let ?y = "fst (process tx r1)" and ?r2 = "snd (process tx r1)"
  let ?h2 = "write_property result pk v' h1"
  have r1: "result < length h1" using Cons.prems(3) ext by simp
  have cell1: "h1 ! result = ObjectCell kvs"
    using prefix_nth [OF ext Cons.prems(3)] Cons.prems(5) by simp
  have h2: "?h2 = h1[result := ObjectCell (obj_set pk v' kvs)]"
    using write_property_at [OF r1 cell1] .
  have len2: "length ?h2 = length h1" by simp
  have above: "a < length ?h2 \<and> ?h2 ! a = h ! a" if "Suc result \<le> a" "a < length h" for a
  proof -
    from that ext have "a < length h1" by simp
    moreover have "?h2 ! a = h1 ! a" using that h2 by simp
    moreover have "h1 ! a = h ! a" using prefix_nth [OF ext that(2)] .
    ultimately show ?thesis by simp
  qed
  have above1: "a < length ?h2 \<and> ?h2 ! a = h1 ! a" if "Suc result \<le> a" "a < length h1" for a
    using that h2 by simp
  have p2: "result < length ?h2" using r1 by simp
  have t2: "take result ?h2 = h0"
  proof -
    have "take result ?h2 = take result h1" using h2 by simp
    also have "\<dots> = take result (take (length h) h1)" using Cons.prems(3) by simp
    also have "\<dots> = take result h" using ext by simp
    finally show ?thesis using Cons.prems(4) by simp
  qed
  have c2: "?h2 ! result = ObjectCell (obj_set pk v' kvs)"
    using h2 r1 by simp
  have old: "those (map (\<lambda>(k, x). map_option (Pair k) (tree_from (Suc result) n ?h2 x)) kvs)
      = Some acc"
    by (rule those_map_mono [OF Cons.prems(6)])
      (auto dest: tree_from_change [where lo' = "Suc result" and h' = ?h2, OF above, rotated -1])
  have new: "tree_from (Suc result) n ?h2 v' = Some ?y"
    by (rule tree_from_change [OF above1 _ tv]) (use Cons.prems(3) in simp_all)
  have acc2: "those (map (\<lambda>(k, x). map_option (Pair k) (tree_from (Suc result) n ?h2 x))
        (obj_set pk v' kvs)) = Some (obj_set pk ?y acc)"
    by (rule those_obj_set [where f = "tree_from (Suc result) n ?h2", OF old new])
  from Cons.IH [OF trest Cons.prems(2) p2 t2 c2 acc2, of ?r2] obtain h' kvs' where
    loop: "object_loop p result entries ?h2 ?r2
             = Returns (h', snd (processObject trest (obj_set pk ?y acc) ?r2))" and
    fin: "length ?h2 \<le> length h'" "h' ! result = ObjectCell kvs'"
      "those (map (\<lambda>(k, x). map_option (Pair k) (tree_from (Suc result) n h' x)) kvs')
         = Some (fst (processObject trest (obj_set pk ?y acc) ?r2))"
    by blast
  have tree: "processObject tentries acc r = processObject trest (obj_set pk ?y acc) ?r2"
    using teq pk by (simp add: case_prod_beta)
  have "object_loop p result (e # entries) h r = object_loop p result entries ?h2 ?r2"
    using e pk call by simp
  with loop fin tree ext show ?case by auto
qed

lemma map_loop_refines:
  assumes frame: "\<And>v h r v' h' r'. p v h r = Returns (v', h', r') \<Longrightarrow>
                    length h \<le> length h' \<and> take (length h) h' = h"
    and ref: "\<And>v h r t. tree_of n h v = Some t \<Longrightarrow>
                \<exists>v' h'. p v h r = Returns (v', h', snd (process t r)) \<and>
                  tree_from (length h) n h' v' = Some (fst (process t r))"
  shows "those (map (\<lambda>x. tree_of n h0 x) rest) = Some trest \<Longrightarrow>
    length h0 = result \<Longrightarrow> result < length h \<Longrightarrow> take result h = h0 \<Longrightarrow>
    arr < result \<Longrightarrow> h0 ! arr = ArrayCell xs \<Longrightarrow> drop k xs = rest \<Longrightarrow> k = length done \<Longrightarrow>
    h ! result = ArrayCell (done @ replicate (length rest) VUndefined) \<Longrightarrow>
    those (map (\<lambda>x. tree_from (Suc result) n h x) done) = Some ydone \<Longrightarrow>
    \<exists>h' vs. map_loop p arr result k (length rest) h r
                 = Returns (h', snd (processArray trest r)) \<and>
       length h \<le> length h' \<and> h' ! result = ArrayCell vs \<and>
       those (map (\<lambda>x. tree_from (Suc result) n h' x) vs)
         = Some (ydone @ fst (processArray trest r))"
proof (induction rest arbitrary: trest h r k "done" ydone)
  case Nil
  then show ?case by auto
next
  case (Cons x rest)
  from Cons.prems(1) obtain tx trest' where
    tx: "tree_of n h0 x = Some tx" and
    trest': "those (map (\<lambda>x. tree_of n h0 x) rest) = Some trest'" and
    teq: "trest = tx # trest'"
    by (auto split: option.splits)
  have ext0: "length h0 \<le> length h" "take (length h0) h = h0"
    using Cons.prems(2,3,4) by simp_all
  have k: "k < length xs"
    using Cons.prems(7) by (metis drop_all list.distinct(1) not_le)
  have xk: "xs ! k = x"
    using Cons.prems(7) by (rule nth_via_drop)
  have arrh: "arr < length h" "h ! arr = ArrayCell xs"
    using Cons.prems(2,3,5,6) prefix_nth [OF ext0, of arr] by simp_all
  then have rd: "read_index h arr k = Some x"
    using k xk by (simp add: read_index_def)
  have "tree_of n h x = Some tx"
    using tree_of_frame [OF ext0 tx] .
  from ref [OF this, of r] obtain v' h1 where
    call: "p x h r = Returns (v', h1, snd (process tx r))" and
    tv: "tree_from (length h) n h1 v' = Some (fst (process tx r))"
    by blast
  from frame [OF call] have ext: "length h \<le> length h1" "take (length h) h1 = h" by simp_all
  let ?y = "fst (process tx r)" and ?r1 = "snd (process tx r)"
  let ?h2 = "write_index result k v' h1"
  let ?old = "done @ replicate (length (x # rest)) VUndefined"
  have r1: "result < length h1" using Cons.prems(3) ext by simp
  have cell1: "h1 ! result = ArrayCell ?old"
    using prefix_nth [OF ext Cons.prems(3)] Cons.prems(9) by simp
  have upd: "?old[k := v'] = (done @ [v']) @ replicate (length rest) VUndefined"
    using Cons.prems(8) by (simp add: list_update_append)
  have h2: "?h2 = h1[result := ArrayCell ((done @ [v']) @ replicate (length rest) VUndefined)]"
    using write_index_at [OF r1 cell1, of k v'] upd by simp
  have above: "a < length ?h2 \<and> ?h2 ! a = h ! a" if "Suc result \<le> a" "a < length h" for a
  proof -
    from that ext have "a < length h1" by simp
    moreover have "?h2 ! a = h1 ! a" using that h2 by simp
    moreover have "h1 ! a = h ! a" using prefix_nth [OF ext that(2)] .
    ultimately show ?thesis by simp
  qed
  have above1: "a < length ?h2 \<and> ?h2 ! a = h1 ! a" if "Suc result \<le> a" "a < length h1" for a
    using that h2 by simp
  have p2: "result < length ?h2" using r1 by simp
  have t2: "take result ?h2 = h0"
  proof -
    have "take result ?h2 = take result h1" using h2 by simp
    also have "\<dots> = take result (take (length h) h1)" using Cons.prems(3) by simp
    also have "\<dots> = take result h" using ext by simp
    finally show ?thesis using Cons.prems(4) by simp
  qed
  have c2: "?h2 ! result = ArrayCell ((done @ [v']) @ replicate (length rest) VUndefined)"
    using h2 r1 by simp
  have old: "those (map (\<lambda>x. tree_from (Suc result) n ?h2 x) done) = Some ydone"
    by (rule those_map_mono [OF Cons.prems(10)])
      (auto dest: tree_from_change [where lo' = "Suc result" and h' = ?h2, OF above, rotated -1])
  have new: "tree_from (Suc result) n ?h2 v' = Some ?y"
    by (rule tree_from_change [OF above1 _ tv]) (use Cons.prems(3) in simp_all)
  have done2: "those (map (\<lambda>x. tree_from (Suc result) n ?h2 x) (done @ [v']))
      = Some (ydone @ [?y])"
    using those_append [OF old, of "[tree_from (Suc result) n ?h2 v']" "[?y]"] new by simp
  have d2: "drop (Suc k) xs = rest"
    using Cons.prems(7) by (metis drop_Suc list.sel(3) tl_drop)
  have k2: "Suc k = length (done @ [v'])" using Cons.prems(8) by simp
  from Cons.IH [OF trest' Cons.prems(2) p2 t2 Cons.prems(5,6) d2 k2 c2 done2, of ?r1]
  obtain h' vs where
    loop: "map_loop p arr result (Suc k) (length rest) ?h2 ?r1
             = Returns (h', snd (processArray trest' ?r1))" and
    fin: "length ?h2 \<le> length h'" "h' ! result = ArrayCell vs"
      "those (map (\<lambda>x. tree_from (Suc result) n h' x) vs)
         = Some ((ydone @ [?y]) @ fst (processArray trest' ?r1))"
    by blast
  have tree: "processArray trest r = (?y # fst (processArray trest' ?r1),
      snd (processArray trest' ?r1))"
    using teq by (simp add: case_prod_beta)
  have "map_loop p arr result k (length (x # rest)) h r
      = map_loop p arr result (Suc k) (length rest) ?h2 ?r1"
    using rd call by simp
  with loop fin tree ext show ?case by auto
qed

lemma process_store_refines:
  "tree_of n h v = Some t \<Longrightarrow>
   \<exists>v' h'. process_store n v h r = Returns (v', h', snd (process t r)) \<and>
     tree_from (length h) n h' v' = Some (fst (process t r))"
proof (induction n arbitrary: v h r t)
  case 0
  then show ?case by simp
next
  case (Suc n)
  have frame: "\<And>v h r v' h' r'. process_store n v h r = Returns (v', h', r') \<Longrightarrow>
                length h \<le> length h' \<and> take (length h) h' = h"
    using process_store_frame by blast
  note ref = Suc.IH
  show ?case
  proof (cases v)
    case (VStr s)
    with Suc.prems show ?thesis by (auto simp: case_prod_beta)
  next
    case (VRef a)
    with Suc.prems have a: "a < length h" by (auto split: if_splits)
    let ?res = "length h"
    show ?thesis
    proof (cases "h ! a")
      case (ObjectCell kvs)
      with Suc.prems VRef a obtain tkvs where
        ts: "those (map (\<lambda>(k, x). map_option (Pair k) (tree_of n h x)) kvs) = Some tkvs"
        and t: "t = JObj tkvs"
        by auto
      let ?h0 = "h @ [ObjectCell []]"
      have "\<exists>h' kvs'. object_loop (\<lambda>v h' r'. process_store n v h' r') ?res kvs ?h0 r
                 = Returns (h', snd (processObject tkvs [] r)) \<and>
          length ?h0 \<le> length h' \<and> h' ! ?res = ObjectCell kvs' \<and>
          those (map (\<lambda>(k, x). map_option (Pair k) (tree_from (Suc ?res) n h' x)) kvs')
            = Some (fst (processObject tkvs [] r))"
        by (rule object_loop_refines [where p = "\<lambda>v h' r'. process_store n v h' r'"
              and ?h0.0 = h and kvs = "[]" and acc = "[]", OF frame ref ts]) simp_all
      then obtain h' kvs' where
        loop: "object_loop (\<lambda>v h' r'. process_store n v h' r') ?res kvs ?h0 r
                 = Returns (h', snd (processObject tkvs [] r))" and
        fin: "length ?h0 \<le> length h'" "h' ! ?res = ObjectCell kvs'"
          "those (map (\<lambda>(k, x). map_option (Pair k) (tree_from (Suc ?res) n h' x)) kvs')
            = Some (fst (processObject tkvs [] r))"
        by blast
      have "those (map (\<lambda>(k, x). map_option (Pair k) (tree_from ?res n h' x)) kvs')
            = Some (fst (processObject tkvs [] r))"
        by (rule those_map_mono [OF fin(3)])
          (auto dest: tree_from_change [where lo' = ?res and h' = h', rotated -1])
      with fin have "tree_from ?res (Suc n) h' (VRef ?res)
          = Some (JObj (fst (processObject tkvs [] r)))"
        by simp
      with loop VRef a ObjectCell t show ?thesis
        by (simp add: case_prod_beta)
    next
      case (ArrayCell xs)
      with Suc.prems VRef a obtain ts where
        ts: "those (map (\<lambda>x. tree_of n h x) xs) = Some ts" and t: "t = JArr ts"
        by auto
      let ?h0 = "h @ [ArrayCell (replicate (length xs) VUndefined)]"
      have "\<exists>h' vs. map_loop (\<lambda>v h' r'. process_store n v h' r') a ?res 0 (length xs) ?h0 r
                 = Returns (h', snd (processArray ts r)) \<and>
          length ?h0 \<le> length h' \<and> h' ! ?res = ArrayCell vs \<and>
          those (map (\<lambda>x. tree_from (Suc ?res) n h' x) vs)
            = Some ([] @ fst (processArray ts r))"
        by (rule map_loop_refines [where p = "\<lambda>v h' r'. process_store n v h' r'"
              and ?h0.0 = h and xs = xs and ?done = "[]" and ydone = "[]", OF frame ref ts])
          (use a ArrayCell in simp_all)
      then obtain h' vs where
        loop: "map_loop (\<lambda>v h' r'. process_store n v h' r') a ?res 0 (length xs) ?h0 r
                 = Returns (h', snd (processArray ts r))" and
        fin: "length ?h0 \<le> length h'" "h' ! ?res = ArrayCell vs"
          "those (map (\<lambda>x. tree_from (Suc ?res) n h' x) vs) = Some (fst (processArray ts r))"
        by auto
      have "those (map (\<lambda>x. tree_from ?res n h' x) vs) = Some (fst (processArray ts r))"
        by (rule those_map_mono [OF fin(3)])
          (auto dest: tree_from_change [where lo' = ?res and h' = h', rotated -1])
      with fin have "tree_from ?res (Suc n) h' (VRef ?res)
          = Some (JArr (fst (processArray ts r)))"
        by simp
      with loop VRef a ArrayCell t show ?thesis
        by (simp add: case_prod_beta)
    qed
  qed (use Suc.prems in auto)
qed

text \<open>
  C10: \<open>process\<close> does not change its argument. When a run on a store returns, every
  cell that was in the store has the content it had, the store has only grown, so the
  tree that the argument stood for is the tree it stands for afterwards; and the result
  for an object or an array is a cell that was not in the store before the call. For
  every argument that stands for a tree the run returns, and its result stands for what
  \<open>process\<close> returns on that tree.
\<close>

theorem process_store_keeps_argument:
  "(process_store n v h r = Returns (v', h', r') \<longrightarrow>
     length h \<le> length h' \<and> take (length h) h' = h \<and>
     (\<forall>a. v = VRef a \<longrightarrow> (\<exists>a'. v' = VRef a' \<and> length h \<le> a' \<and> a' < length h')) \<and>
     (\<forall>k t. tree_of k h v = Some t \<longrightarrow> tree_of k h' v = Some t)) \<and>
   (tree_of n h v = Some t \<longrightarrow>
     (\<exists>v' h'. process_store n v h r = Returns (v', h', snd (process t r)) \<and>
        tree_of n h' v' = Some (fst (process t r))))"
proof (intro conjI impI)
  assume ret: "process_store n v h r = Returns (v', h', r')"
  from process_store_frame [OF ret] have
    f: "length h \<le> length h'" "take (length h) h' = h"
      "\<forall>a. v = VRef a \<longrightarrow> (\<exists>a'. v' = VRef a' \<and> length h \<le> a' \<and> a' < length h')"
    by blast+
  from f show "length h \<le> length h'" "take (length h) h' = h"
    "\<forall>a. v = VRef a \<longrightarrow> (\<exists>a'. v' = VRef a' \<and> length h \<le> a' \<and> a' < length h')"
    by blast+
  from tree_of_frame [OF f(1,2)]
  show "\<forall>k t. tree_of k h v = Some t \<longrightarrow> tree_of k h' v = Some t"
    by blast
next
  assume "tree_of n h v = Some t"
  from process_store_refines [OF this, of r] obtain v' h' where
    "process_store n v h r = Returns (v', h', snd (process t r))"
    "tree_from (length h) n h' v' = Some (fst (process t r))"
    by blast
  then show "\<exists>v' h'. process_store n v h r = Returns (v', h', snd (process t r)) \<and>
        tree_of n h' v' = Some (fst (process t r))"
    using tree_from_tree_of by blast
qed

theorem process_store_keeps_argument_witness:
  "process_store (Suc (Suc (Suc 0))) (VRef 0) small_store zero_source =
     Returns (VRef 2,
       small_store @ [ObjectCell [(''a'', VStr ''{{nope}}''), (''b'', VRef 3)],
                      ArrayCell [VNum 1, VStr ''x'']],
       zero_source) \<and>
   take (length small_store)
     (small_store @ [ObjectCell [(''a'', VStr ''{{nope}}''), (''b'', VRef 3)],
                     ArrayCell [VNum 1, VStr ''x'']]) = small_store \<and>
   (\<exists>a'. VRef 2 = VRef a' \<and> length small_store \<le> a')"
  using process_store_keeps_argument
      [of "Suc (Suc (Suc 0))" "VRef 0" small_store zero_source "VRef 2"
          "small_store @ [ObjectCell [(''a'', VStr ''{{nope}}''), (''b'', VRef 3)],
                          ArrayCell [VNum 1, VStr ''x'']]" zero_source]
    small_store_run
  by (simp add: small_store_def)

end
